theory Spec2Isabelle
  imports Main "HOL-Library.Sublist" "HOL-Library.Multiset"
begin

section \<open>Python strings and errors\<close>

text \<open>
  A Python \<open>str\<close> is a sequence of Unicode code points. Isabelle's \<open>char\<close> is a byte, so a
  string is modelled as a list of code points; \<open>str\<close> embeds an ASCII literal. Tokens and
  labels are such strings.
\<close>

type_synonym pystr = "nat list"

definition str :: "string \<Rightarrow> pystr" where
  "str s = map of_char s"

datatype error = IndexError | ValueError

text \<open>Python's \<open>a in b\<close> on two strings: \<open>a\<close> occurs in \<open>b\<close> as a contiguous substring.\<close>

fun py_in_str :: "pystr \<Rightarrow> pystr \<Rightarrow> bool" where
  "py_in_str a [] = (a = [])"
| "py_in_str a (c # cs) = (prefix a (c # cs) \<or> py_in_str a cs)"

text \<open>Python's \<open>s.split(sep)\<close> for a one-character separator.\<close>

fun split_on :: "nat \<Rightarrow> pystr \<Rightarrow> pystr list" where
  "split_on sep [] = [[]]"
| "split_on sep (c # cs) =
     (if c = sep then [] # split_on sep cs
      else (case split_on sep cs of
              [] \<Rightarrow> [[c]]
            | w # ws \<Rightarrow> (c # w) # ws))"

section \<open>The constants of \<open>AspectExtractor.__init__\<close>\<close>

text \<open>
  Dictionaries are association lists in insertion order. The guillemets are the code points
  171 and 187, the symmetric quote is code point 34.
\<close>

definition PAIRED_L2R :: "(pystr \<times> pystr) list" where
  "PAIRED_L2R = [(str ''('', str '')''), (str ''['', str '']''), ([171], [187]), (str ''{'', str ''}'')]"

definition PAIRED_R2L :: "(pystr \<times> pystr) list" where
  "PAIRED_R2L = zip (map snd PAIRED_L2R) (map fst PAIRED_L2R)"

definition UNPAIRED_PUNCT :: pystr where
  "UNPAIRED_PUNCT = str ''.,:;!?%^''"

definition SYMM_QUOTES :: "pystr list" where
  "SYMM_QUOTES = [[34]]"

text \<open>\<open>d.get(k, k)\<close>: the value stored under \<open>k\<close>, or \<open>k\<close> itself.\<close>

definition get_or_self :: "(pystr \<times> pystr) list \<Rightarrow> pystr \<Rightarrow> pystr" where
  "get_or_self d k = (case map_of d k of None \<Rightarrow> k | Some v \<Rightarrow> v)"

section \<open>\<open>balance_parentheses\<close>\<close>

text \<open>
  One iteration of the scan. Both stacks are Python lists filled with \<open>insert(0, _)\<close>, so the
  head is the entry pushed last; \<open>list.remove\<close> deletes the first occurrence.
\<close>

fun balance_step :: "pystr list \<times> pystr list \<Rightarrow> pystr \<Rightarrow> pystr list \<times> pystr list" where
  "balance_step (left_stack, right_stack) token =
     (if token \<in> set SYMM_QUOTES \<and> token \<in> set left_stack
        then (remove1 token left_stack, right_stack)
      else if map_of PAIRED_L2R token \<noteq> None \<or> token \<in> set SYMM_QUOTES
        then (token # left_stack, right_stack)
      else (case map_of PAIRED_R2L token of
              None \<Rightarrow> (left_stack, right_stack)
            | Some l \<Rightarrow>
                if l \<in> set left_stack then (remove1 l left_stack, right_stack)
                else (left_stack, token # right_stack)))"

definition balance_scan :: "pystr list \<Rightarrow> pystr list \<times> pystr list" where
  "balance_scan text = foldl balance_step ([], []) text"

text \<open>The two repair loops: \<open>text.insert(0, _)\<close> and \<open>text.append(_)\<close> per stack entry.\<close>

fun insert_lefts :: "pystr list \<Rightarrow> pystr list \<Rightarrow> pystr list" where
  "insert_lefts text [] = text"
| "insert_lefts text (p # right_stack) = insert_lefts (get_or_self PAIRED_R2L p # text) right_stack"

fun append_rights :: "pystr list \<Rightarrow> pystr list \<Rightarrow> pystr list" where
  "append_rights text [] = text"
| "append_rights text (p # left_stack) = append_rights (text @ [get_or_self PAIRED_L2R p]) left_stack"

text \<open>
  The source mutates its argument and returns it; the model returns the new value.
\<close>

definition balance_parentheses :: "pystr list \<Rightarrow> pystr list" where
  "balance_parentheses text =
     (case balance_scan text of
        (left_stack, right_stack) \<Rightarrow> append_rights (insert_lefts text right_stack) left_stack)"

text \<open>
  The repair as the specification words it, for comparison: the right counterparts of the
  unmatched opens are appended in the order the opens were pushed, the first pushed first.
\<close>

definition balance_parentheses_spec :: "pystr list \<Rightarrow> pystr list" where
  "balance_parentheses_spec text =
     (case balance_scan text of
        (left_stack, right_stack) \<Rightarrow>
          append_rights (insert_lefts text right_stack) (rev left_stack))"

text \<open>
  Kinds of tokens, for stating properties: members of \<open>PAIRED_L2R\<close>, of \<open>PAIRED_R2L\<close> and of
  \<open>SYMM_QUOTES\<close>.
\<close>

definition is_left :: "pystr \<Rightarrow> bool" where
  "is_left t = (map_of PAIRED_L2R t \<noteq> None)"

definition is_right :: "pystr \<Rightarrow> bool" where
  "is_right t = (map_of PAIRED_R2L t \<noteq> None)"

definition is_quote :: "pystr \<Rightarrow> bool" where
  "is_quote t = (t \<in> set SYMM_QUOTES)"

section \<open>\<open>detokenize\<close>\<close>

text \<open>
  One iteration of the loop over the state \<open>(detokenized_text, sep)\<close>. The test
  \<open>token in self.UNPAIRED_PUNCT\<close> is a substring test, since \<open>UNPAIRED_PUNCT\<close> is a string;
  \<open>sep\<close> is assigned in the \<open>else\<close> branch only.
\<close>

fun detokenize_step :: "pystr list \<times> pystr \<Rightarrow> pystr \<Rightarrow> pystr list \<times> pystr" where
  "detokenize_step (detokenized_text, sep) token =
     (if py_in_str token UNPAIRED_PUNCT \<or> map_of PAIRED_R2L token \<noteq> None
        then (detokenized_text @ [token], sep)
      else (detokenized_text @ [sep @ token],
            if map_of PAIRED_L2R token \<noteq> None then [] else str '' ''))"

definition detokenize :: "pystr list \<Rightarrow> pystr" where
  "detokenize text = concat (fst (foldl detokenize_step ([], []) text))"

text \<open>The tokens that the loop appends without a separator, and leaves \<open>sep\<close> as it is.\<close>

definition attaches :: "pystr \<Rightarrow> bool" where
  "attaches token = (py_in_str token UNPAIRED_PUNCT \<or> map_of PAIRED_R2L token \<noteq> None)"

text \<open>
  The value of \<open>sep\<close> in terms of the tokens read so far: it is decided by the last token
  that did not attach.
\<close>

definition sep_after :: "pystr list \<Rightarrow> pystr" where
  "sep_after toks =
     (let ts = filter (\<lambda>t. \<not> attaches t) toks
      in if ts = [] \<or> is_left (last ts) then [] else str '' '')"

text \<open>
  The separator rule as the specification words it, for comparison: a token of the
  unpaired-punctuation set is one of the characters of \<open>UNPAIRED_PUNCT\<close>, and the flag is
  reset after every token, to empty after a left bracket and to a space otherwise.
\<close>

definition in_punct_set :: "pystr \<Rightarrow> bool" where
  "in_punct_set token = (case token of [c] \<Rightarrow> c \<in> set UNPAIRED_PUNCT | _ \<Rightarrow> False)"

fun detokenize_step_spec :: "pystr list \<times> pystr \<Rightarrow> pystr \<Rightarrow> pystr list \<times> pystr" where
  "detokenize_step_spec (detokenized_text, sep) token =
     (detokenized_text @ [if in_punct_set token \<or> is_right token then token else sep @ token],
      if is_left token then [] else str '' '')"

definition detokenize_spec :: "pystr list \<Rightarrow> pystr" where
  "detokenize_spec text = concat (fst (foldl detokenize_step_spec ([], []) text))"

section \<open>The external services: morphological analyser and dependency parser\<close>

text \<open>
  A parse returned by \<open>morph.parse(token)\<close>: \<open>tag_POS\<close> is \<open>parse.tag.POS\<close> (which may be
  \<open>None\<close>), and \<open>inflect_word g\<close> is \<open>parse.inflect(g).word\<close>, or \<open>None\<close> when
  \<open>parse.inflect(g)\<close> is \<open>None\<close>.
\<close>

record morph_parse =
  tag_POS :: "pystr option"
  inflect_word :: "pystr set \<Rightarrow> pystr option"

text \<open>
  A token of the parsed \<open>Doc\<close>: its position, text, \<open>pos_\<close>, \<open>dep_\<close>, the position of its
  \<open>head\<close>, and \<open>morph.get("Number")\<close>, \<open>morph.get("Gender")\<close>. Two tokens of a document are
  equal when their positions are.
\<close>

record doc_token =
  tok_i :: nat
  tok_text :: pystr
  tok_pos :: pystr
  tok_dep :: pystr
  tok_head :: nat
  morph_Number :: "pystr list"
  morph_Gender :: "pystr list"

record doc =
  doc_tokens :: "doc_token list"
  doc_root :: doc_token

text \<open>
  The fields of \<open>AspectExtractor\<close> that are services: the flag \<open>do_normalize\<close>, the parser
  (\<open>syntax_parser\<close> applied to a \<open>Doc\<close> of the given words), the analyser \<open>morph.parse\<close>, and
  \<open>predictor.extract\<close>. \<open>str_upper\<close> is Python's \<open>str.upper\<close>.
\<close>

datatype text_input = Tokenized "pystr list" | Raw pystr

record extractor =
  do_normalize :: bool
  syntax_parser :: "pystr list \<Rightarrow> doc"
  morph :: "pystr \<Rightarrow> morph_parse list"
  predictor :: "text_input \<Rightarrow> (pystr \<times> pystr) list"
  str_upper :: "pystr \<Rightarrow> pystr"

definition GRAMMEME_MAPPING :: "(pystr \<times> pystr) list" where
  "GRAMMEME_MAPPING = [(str ''Fem'', str ''femn''), (str ''Masc'', str ''masc''),
     (str ''Neut'', str ''neut''), (str ''Plur'', str ''plur''), (str ''Sing'', str ''sing'')]"

definition NOUN_DEP :: "pystr list" where
  "NOUN_DEP = [str ''appos'', str ''acl'', str ''amod'', str ''det'', str ''clf'', str ''nummod'']"

section \<open>\<open>get_noun_grammemes\<close> and \<open>inflect\<close>\<close>

definition get_noun_grammemes :: "doc_token \<Rightarrow> pystr set" where
  "get_noun_grammemes token =
     (let number = (case map_of GRAMMEME_MAPPING (concat (morph_Number token)) of
                      None \<Rightarrow> str ''sing'' | Some v \<Rightarrow> v);
          gender = (case map_of GRAMMEME_MAPPING (concat (morph_Gender token)) of
                      None \<Rightarrow> str ''masc'' | Some v \<Rightarrow> v)
      in if number = str ''plur'' then {number} else {gender})"

text \<open>
  The test of the loop in \<open>inflect\<close>:
  \<open>any(parse.tag.POS.startswith(prefix) for prefix in pos if parse.tag.POS)\<close>.
\<close>

definition pos_matches :: "morph_parse \<Rightarrow> pystr list \<Rightarrow> bool" where
  "pos_matches parse pos =
     (case tag_POS parse of
        None \<Rightarrow> False
      | Some p \<Rightarrow> p \<noteq> [] \<and> list_ex (\<lambda>pre. prefix pre p) pos)"

text \<open>
  The loop \<open>for parse in parses: if ...: parse = parse; break\<close>. The loop variable is the
  variable \<open>parse\<close> itself, so every iteration overwrites it; the first argument is its
  value before the remaining iterations.
\<close>

fun for_parse :: "morph_parse \<Rightarrow> morph_parse list \<Rightarrow> pystr list \<Rightarrow> morph_parse" where
  "for_parse parse [] pos = parse"
| "for_parse parse (p # parses) pos =
     (if pos_matches p pos then p else for_parse p parses pos)"

definition inflect :: "extractor \<Rightarrow> pystr \<Rightarrow> pystr list \<Rightarrow> pystr set \<Rightarrow> error + pystr" where
  "inflect self token pos grammemes =
     (case morph self token of
        [] \<Rightarrow> Inl IndexError
      | p0 # ps \<Rightarrow>
          (case inflect_word (for_parse p0 (p0 # ps) pos) grammemes of
             Some word \<Rightarrow> Inr word
           | None \<Rightarrow> Inr token))"

section \<open>\<open>normalize\<close>\<close>

text \<open>
  The method \<open>normalize\<close> is \<open>normalize_tokens\<close> here, since \<open>normalize\<close> is a constant of
  HOL. A list comprehension or loop whose body may raise is a \<open>map_result\<close>: the first error
  ends it.
\<close>

fun map_result :: "('a \<Rightarrow> error + 'b) \<Rightarrow> 'a list \<Rightarrow> error + 'b list" where
  "map_result f [] = Inr []"
| "map_result f (x # xs) =
     (case f x of
        Inl e \<Rightarrow> Inl e
      | Inr y \<Rightarrow> (case map_result f xs of Inl e \<Rightarrow> Inl e | Inr ys \<Rightarrow> Inr (y # ys)))"

definition children :: "doc \<Rightarrow> doc_token \<Rightarrow> doc_token list" where
  "children d token =
     filter (\<lambda>c. tok_head c = tok_i token \<and> tok_i c \<noteq> tok_i token) (doc_tokens d)"

definition normalize_token :: "extractor \<Rightarrow> doc \<Rightarrow> pystr set \<Rightarrow> doc_token \<Rightarrow> error + pystr" where
  "normalize_token self d grammemes token =
     (if tok_dep token = str ''nummod''
        then inflect self (tok_text token) [] {str ''nomn''}
      else if list_ex (\<lambda>child. prefix (str ''nummod'') (tok_dep child)) (children d token)
        then inflect self (tok_text token) [str ''NOUN''] {str ''gent''}
      else if tok_i token = tok_i (doc_root d)
        then inflect self (tok_text token) [str ''NOUN''] {str ''nomn''}
      else if tok_head token = tok_i (doc_root d) \<and> tok_dep token \<in> set NOUN_DEP
        then inflect self (tok_text token) [str ''ADJ'', str ''PRT''] ({str ''nomn''} \<union> grammemes)
      else Inr (tok_text token))"

text \<open>
  \<open>Doc(self.syntax_parser.vocab, words=tokens)\<close> raises \<open>ValueError\<close> when a token is the
  empty string, and \<open>doc[::].root\<close> raises \<open>IndexError\<close> when the document has no token.
\<close>

definition normalize_tokens :: "extractor \<Rightarrow> pystr list \<Rightarrow> error + pystr list" where
  "normalize_tokens self tokens =
     (if [] \<in> set tokens then Inl ValueError
      else if tokens = [] then Inl IndexError
      else (let d = syntax_parser self tokens; root = doc_root d
            in if tok_pos root = str ''NOUN''
                 then map_result (normalize_token self d (get_noun_grammemes root)) (doc_tokens d)
               else Inr tokens))"

section \<open>\<open>process\<close>\<close>

text \<open>
  An error of \<open>normalize\<close> ends \<open>process\<close>; \<open>text[0]\<close> raises \<open>IndexError\<close> on the empty
  string.
\<close>

definition process :: "extractor \<Rightarrow> pystr list \<Rightarrow> error + pystr" where
  "process self text =
     (case (if do_normalize self then normalize_tokens self text else Inr text) of
        Inl e \<Rightarrow> Inl e
      | Inr text1 \<Rightarrow>
          (case detokenize (balance_parentheses text1) of
             [] \<Rightarrow> Inl IndexError
           | c # cs \<Rightarrow> Inr (str_upper self [c] @ cs)))"

section \<open>\<open>extract_aspects\<close>\<close>

text \<open>
  \<open>extracted_aspects\<close> is a \<open>defaultdict(list)\<close>: an association list in insertion order, a
  missing key reading as the empty list. Writing a key keeps its place, or adds it at the end.
\<close>

type_synonym aspects = "(pystr \<times> pystr list list) list"

definition mentions_of :: "aspects \<Rightarrow> pystr \<Rightarrow> pystr list list" where
  "mentions_of d aspect = (case map_of d aspect of None \<Rightarrow> [] | Some ms \<Rightarrow> ms)"

fun setitem :: "aspects \<Rightarrow> pystr \<Rightarrow> pystr list list \<Rightarrow> aspects" where
  "setitem [] k v = [(k, v)]"
| "setitem ((k', v') # d) k v = (if k' = k then (k, v) # d else (k', v') # setitem d k v)"

text \<open>Lines 171 to 173: the label is split at the pipe (code point 124), and \<open>O\<close> empties it.\<close>

definition aspects_for_token :: "pystr \<Rightarrow> pystr list" where
  "aspects_for_token cur_label =
     (let aspects_for_token = split_on 124 cur_label
      in if str ''O'' \<in> set aspects_for_token then [] else aspects_for_token)"

text \<open>
  The body of the inner loop, lines 175 to 177. \<open>aspect not in prev_label\<close> is a substring
  test on the previous label string; \<open>[-1]\<close> raises \<open>IndexError\<close> on an empty list.
\<close>

definition add_token :: "aspects \<Rightarrow> pystr \<Rightarrow> pystr \<Rightarrow> pystr \<Rightarrow> error + aspects" where
  "add_token d prev_label cur_token aspect =
     (let mentions = (if \<not> py_in_str aspect prev_label
                      then mentions_of d aspect @ [[]] else mentions_of d aspect)
      in if mentions = [] then Inl IndexError
         else Inr (setitem d aspect (butlast mentions @ [last mentions @ [cur_token]])))"

fun add_tokens :: "aspects \<Rightarrow> pystr \<Rightarrow> pystr \<Rightarrow> pystr list \<Rightarrow> error + aspects" where
  "add_tokens d prev_label cur_token [] = Inr d"
| "add_tokens d prev_label cur_token (aspect # rest) =
     (case add_token d prev_label cur_token aspect of
        Inl e \<Rightarrow> Inl e
      | Inr d' \<Rightarrow> add_tokens d' prev_label cur_token rest)"

text \<open>The outer loop, from a dictionary and the label of the token before.\<close>

fun group_loop :: "aspects \<Rightarrow> pystr \<Rightarrow> (pystr \<times> pystr) list \<Rightarrow> error + aspects" where
  "group_loop d prev_label [] = Inr d"
| "group_loop d prev_label ((cur_token, cur_label) # rest) =
     (case add_tokens d prev_label cur_token (aspects_for_token cur_label) of
        Inl e \<Rightarrow> Inl e
      | Inr d' \<Rightarrow> group_loop d' cur_label rest)"

text \<open>\<open>extracted_aspects\<close> after the loop over \<open>result\<close>, lines 164 to 177.\<close>

definition group_mentions :: "(pystr \<times> pystr) list \<Rightarrow> error + aspects" where
  "group_mentions result = group_loop [] [] result"

definition extract_aspects :: "extractor \<Rightarrow> text_input \<Rightarrow> error + (pystr \<times> pystr list) list" where
  "extract_aspects self text =
     (case group_mentions (predictor self text) of
        Inl e \<Rightarrow> Inl e
      | Inr extracted_aspects \<Rightarrow>
          map_result (\<lambda>(aspect, mentions).
              case map_result (process self) mentions of
                Inl e \<Rightarrow> Inl e
              | Inr ms \<Rightarrow> Inr (aspect, ms))
            extracted_aspects)"

section \<open>Notions for stating the grouping properties\<close>

text \<open>\<open>ASPECTS_LIST\<close> of \<open>utils.py\<close>, the vocabulary of categories.\<close>

definition ASPECTS_LIST :: "pystr list" where
  "ASPECTS_LIST = [str ''Task'', str ''Contrib'', str ''Method'', str ''Conc'']"

text \<open>
  A label of the data model: the sentinel \<open>O\<close>, or distinct categories of the vocabulary joined
  by pipes.
\<close>

definition wf_label :: "pystr \<Rightarrow> bool" where
  "wf_label l =
     (l = str ''O'' \<or> (distinct (split_on 124 l) \<and> list_all (\<lambda>c. c \<in> set ASPECTS_LIST) (split_on 124 l)))"

text \<open>
  The label set of token \<open>i\<close>, and of the token before it; before the first token it is empty.
\<close>

definition label_set :: "(pystr \<times> pystr) list \<Rightarrow> nat \<Rightarrow> pystr list" where
  "label_set result i = aspects_for_token (snd (result ! i))"

definition prev_label_set :: "(pystr \<times> pystr) list \<Rightarrow> nat \<Rightarrow> pystr list" where
  "prev_label_set result i = (if i = 0 then [] else label_set result (i - 1))"

text \<open>
  The maximal runs of consecutive elements that satisfy \<open>P\<close>, in order; and the spans of a
  category as the specification's glossary defines them, the maximal runs of tokens whose
  label set holds the category.
\<close>

function runs :: "('a \<Rightarrow> bool) \<Rightarrow> 'a list \<Rightarrow> 'a list list" where
  "runs P [] = []"
| "runs P (x # xs) =
     (if P x then (x # takeWhile P xs) # runs P (dropWhile P xs) else runs P xs)"
  by pat_completeness auto
termination
  by (relation "measure (\<lambda>(P, xs). length xs)") (auto simp: less_Suc_eq_le length_dropWhile_le)

definition spans_spec :: "pystr \<Rightarrow> (pystr \<times> pystr) list \<Rightarrow> pystr list list" where
  "spans_spec c result = map (map fst) (runs (\<lambda>(tok, l). c \<in> set (aspects_for_token l)) result)"

text \<open>
  A sequence on which the substring test of the loop agrees with membership in the label set
  of the token before: every label has distinct entries, and an entry of a label occurs in the
  previous label string exactly when it is in the previous label set.
\<close>

fun faithful_from :: "pystr \<Rightarrow> pystr list \<Rightarrow> (pystr \<times> pystr) list \<Rightarrow> bool" where
  "faithful_from prev_label prev_set [] = True"
| "faithful_from prev_label prev_set ((tok, l) # rest) =
     (distinct (aspects_for_token l)
      \<and> list_all (\<lambda>c. py_in_str c prev_label = (c \<in> set prev_set)) (aspects_for_token l)
      \<and> faithful_from l (aspects_for_token l) rest)"

definition faithful :: "(pystr \<times> pystr) list \<Rightarrow> bool" where
  "faithful result = faithful_from [] [] result"

section \<open>Facts about the punctuation tables\<close>

lemmas table_defs = PAIRED_L2R_def PAIRED_R2L_def SYMM_QUOTES_def str_def

lemma R2L_Some: "map_of PAIRED_R2L t = Some l \<Longrightarrow>
    map_of PAIRED_L2R l = Some t \<and> l \<notin> set SYMM_QUOTES \<and> map_of PAIRED_R2L l = None
    \<and> map_of PAIRED_L2R t = None \<and> t \<notin> set SYMM_QUOTES"
  by (auto simp: table_defs split: if_splits)

lemma L2R_Some: "map_of PAIRED_L2R l = Some r \<Longrightarrow>
    map_of PAIRED_R2L r = Some l \<and> r \<notin> set SYMM_QUOTES \<and> map_of PAIRED_L2R r = None
    \<and> map_of PAIRED_R2L l = None \<and> l \<notin> set SYMM_QUOTES"
  by (auto simp: table_defs split: if_splits)

lemma quote_tables: "t \<in> set SYMM_QUOTES \<Longrightarrow> map_of PAIRED_L2R t = None \<and> map_of PAIRED_R2L t = None"
  by (auto simp: table_defs split: if_splits)

lemma insert_lefts_closed:
  "insert_lefts toks rs = rev (map (get_or_self PAIRED_R2L) rs) @ toks"
  by (induction rs arbitrary: toks) auto

lemma append_rights_closed:
  "append_rights toks ls = toks @ map (get_or_self PAIRED_L2R) ls"
  by (induction ls arbitrary: toks) auto

lemma balance_closed:
  "balance_parentheses text =
     rev (map (get_or_self PAIRED_R2L) (snd (balance_scan text))) @ text
       @ map (get_or_self PAIRED_L2R) (fst (balance_scan text))"
  by (simp add: balance_parentheses_def insert_lefts_closed append_rights_closed split: prod.splits)

lemma scan_lefts:
  "\<forall>t \<in> set toks. is_left t \<Longrightarrow> foldl balance_step (ls, rs) toks = (rev toks @ ls, rs)"
proof (induction toks arbitrary: ls)
  case Nil
  then show ?case by simp
next
  case (Cons t toks)
  from Cons.prems have "is_left t" by simp
  then have "balance_step (ls, rs) t = (t # ls, rs)"
    using L2R_Some[of t] by (auto simp: is_left_def)
  with Cons show ?case by simp
qed

lemma scan_rights:
  "mset ls = mset os \<Longrightarrow> \<forall>p \<in> set os. is_left p \<or> is_quote p \<Longrightarrow>
   foldl balance_step (ls, rs) (map (get_or_self PAIRED_L2R) os) = ([], rs)"
proof (induction os arbitrary: ls)
  case Nil
  then show ?case by simp
next
  case (Cons p os)
  have mem: "p \<in> set ls"
    using Cons.prems(1) by (metis list.set_intros(1) set_mset_mset)
  have step: "balance_step (ls, rs) (get_or_self PAIRED_L2R p) = (remove1 p ls, rs)"
  proof (cases "is_quote p")
    case True
    then show ?thesis
      using mem quote_tables[of p] by (simp add: is_quote_def get_or_self_def)
  next
    case False
    with Cons.prems(2) obtain r where r: "map_of PAIRED_L2R p = Some r"
      by (auto simp: is_left_def)
    from L2R_Some[OF r] mem r show ?thesis
      by (simp add: get_or_self_def)
  qed
  have "mset (remove1 p ls) = mset os"
    using Cons.prems(1) by simp
  with Cons step show ?case by simp
qed

lemma scan_shadow:
  "foldl balance_step (ls, rs) x = (lsf, rsf) \<Longrightarrow>
   \<exists>fut. rsf = fut @ rs \<and> (\<forall>t \<in> set fut. is_right t) \<and>
     (\<forall>ls' rs'. mset ls' = mset ls + mset (map (get_or_self PAIRED_R2L) fut) \<longrightarrow>
        (\<exists>ls''. foldl balance_step (ls', rs') x = (ls'', rs') \<and> mset ls'' = mset lsf))"
proof (induction x arbitrary: ls rs)
  case Nil
  then show ?case by auto
next
  case (Cons t x)
  obtain ls1 rs1 where s1: "balance_step (ls, rs) t = (ls1, rs1)" by force
  with Cons.prems have "foldl balance_step (ls1, rs1) x = (lsf, rsf)" by simp
  from Cons.IH[OF this] obtain fut where
    fut: "rsf = fut @ rs1" "\<forall>t \<in> set fut. is_right t"
      "\<And>ls' rs'. mset ls' = mset ls1 + mset (map (get_or_self PAIRED_R2L) fut) \<Longrightarrow>
        (\<exists>ls''. foldl balance_step (ls', rs') x = (ls'', rs') \<and> mset ls'' = mset lsf)"
    by blast
  let ?gR = "get_or_self PAIRED_R2L"
  consider (A) "t \<in> set SYMM_QUOTES" "t \<in> set ls"
    | (B) "\<not> (t \<in> set SYMM_QUOTES \<and> t \<in> set ls)" "map_of PAIRED_L2R t \<noteq> None \<or> t \<in> set SYMM_QUOTES"
    | (C) l where "map_of PAIRED_R2L t = Some l" "l \<in> set ls"
    | (D) l where "map_of PAIRED_R2L t = Some l" "l \<notin> set ls"
    | (E) "t \<notin> set SYMM_QUOTES" "map_of PAIRED_L2R t = None" "map_of PAIRED_R2L t = None"
    by (cases "map_of PAIRED_R2L t") auto
  then show ?case
  proof cases
    case A
    with s1 have eq: "ls1 = remove1 t ls" "rs1 = rs" by auto
    have "\<exists>ls''. foldl balance_step (ls', rs') (t # x) = (ls'', rs') \<and> mset ls'' = mset lsf"
      if h: "mset ls' = mset ls + mset (map ?gR fut)" for ls' rs'
    proof -
      have mem: "t \<in> set ls'" using h A(2) by (metis UnCI set_mset_mset set_mset_union)
      then have st: "balance_step (ls', rs') t = (remove1 t ls', rs')" using A(1) by simp
      have "mset (remove1 t ls') = mset ls1 + mset (map ?gR fut)"
        using h A(2) eq by simp
      from fut(3)[OF this, of rs'] st show ?thesis by simp
    qed
    with fut(1,2) eq show ?thesis by blast
  next
    case B
    with s1 have eq: "ls1 = t # ls" "rs1 = rs" by (auto split: if_splits)
    have "\<exists>ls''. foldl balance_step (ls', rs') (t # x) = (ls'', rs') \<and> mset ls'' = mset lsf"
      if h: "mset ls' = mset ls + mset (map ?gR fut)" for ls' rs'
    proof -
      have "t \<notin> set ls'" if q: "t \<in> set SYMM_QUOTES"
      proof
        assume "t \<in> set ls'"
        then have "t \<in># mset ls + mset (map ?gR fut)" using h by (metis set_mset_mset)
        moreover have "t \<notin> set ls" using B(1) q by simp
        ultimately obtain c where c: "c \<in> set fut" "t = ?gR c" by auto
        with fut(2) obtain l where "map_of PAIRED_R2L c = Some l" by (auto simp: is_right_def)
        with c R2L_Some[OF this] q show False by (simp add: get_or_self_def)
      qed
      then have st: "balance_step (ls', rs') t = (t # ls', rs')" using B(2) by auto
      have "mset (t # ls') = mset ls1 + mset (map ?gR fut)"
        using h eq by simp
      from fut(3)[OF this, of rs'] st show ?thesis by simp
    qed
    with fut(1,2) eq show ?thesis by blast
  next
    case C
    from R2L_Some[OF C(1)] C s1 have eq: "ls1 = remove1 l ls" "rs1 = rs" by auto
    have "\<exists>ls''. foldl balance_step (ls', rs') (t # x) = (ls'', rs') \<and> mset ls'' = mset lsf"
      if h: "mset ls' = mset ls + mset (map ?gR fut)" for ls' rs'
    proof -
      have mem: "l \<in> set ls'" using h C(2) by (metis UnCI set_mset_mset set_mset_union)
      then have st: "balance_step (ls', rs') t = (remove1 l ls', rs')"
        using R2L_Some[OF C(1)] C(1) by simp
      have "mset (remove1 l ls') = mset ls1 + mset (map ?gR fut)"
        using h C(2) eq by simp
      from fut(3)[OF this, of rs'] st show ?thesis by simp
    qed
    with fut(1,2) eq show ?thesis by blast
  next
    case D
    from R2L_Some[OF D(1)] D s1 have eq: "ls1 = ls" "rs1 = t # rs" by auto
    have "\<exists>ls''. foldl balance_step (ls', rs') (t # x) = (ls'', rs') \<and> mset ls'' = mset lsf"
      if h: "mset ls' = mset ls + mset (map ?gR (fut @ [t]))" for ls' rs'
    proof -
      have gt: "?gR t = l" using D(1) by (simp add: get_or_self_def)
      have mem: "l \<in> set ls'" using h gt by (metis UnCI in_set_conv_decomp map_append list.simps(9) set_mset_mset set_mset_union)
      then have st: "balance_step (ls', rs') t = (remove1 l ls', rs')"
        using R2L_Some[OF D(1)] D(1) by simp
      have "mset (remove1 l ls') = mset ls1 + mset (map ?gR fut)"
        using h gt eq by simp
      from fut(3)[OF this, of rs'] st show ?thesis by simp
    qed
    moreover have "rsf = (fut @ [t]) @ rs" using fut(1) eq by simp
    moreover have "\<forall>c \<in> set (fut @ [t]). is_right c" using fut(2) D(1) by (simp add: is_right_def)
    ultimately show ?thesis by blast
  next
    case E
    with s1 have eq: "ls1 = ls" "rs1 = rs" by auto
    have "\<exists>ls''. foldl balance_step (ls', rs') (t # x) = (ls'', rs') \<and> mset ls'' = mset lsf"
      if h: "mset ls' = mset ls + mset (map ?gR fut)" for ls' rs'
    proof -
      have st: "balance_step (ls', rs') t = (ls', rs')" using E by simp
      from fut(3)[of ls' rs'] h eq st show ?thesis by simp
    qed
    with fut(1,2) eq show ?thesis by blast
  qed
qed

lemma subseq_remove1_stack: "subseq (remove1 a xs) xs"
  by (induction xs) auto

lemma balance_step_subseq:
  assumes "balance_step (ls, rs) t = (ls', rs')" "subseq ls ys" "subseq rs ys"
  shows "subseq ls' (t # ys) \<and> subseq rs' (t # ys)"
proof -
  have r: "subseq (remove1 a ls) (t # ys)" for a
    using assms(2) subseq_remove1_stack[of a ls] by (meson subseq_Cons' subseq_order.trans list_emb_Cons)
  from assms r show ?thesis
    by (auto split: if_splits option.splits)
qed

lemma balance_scan_snoc: "balance_scan (xs @ [t]) = balance_step (balance_scan xs) t"
  by (simp add: balance_scan_def)

lemma balance_scan_subseq:
  "subseq (fst (balance_scan x)) (rev x) \<and> subseq (snd (balance_scan x)) (rev x)"
proof (induction x rule: rev_induct)
  case Nil
  then show ?case by (simp add: balance_scan_def)
next
  case (snoc t xs)
  obtain ls rs where s: "balance_scan xs = (ls, rs)" by force
  obtain ls' rs' where s': "balance_step (ls, rs) t = (ls', rs')" by force
  from balance_step_subseq[OF s'] snoc s have "subseq ls' (t # rev xs) \<and> subseq rs' (t # rev xs)"
    by simp
  with s s' show ?case by (simp add: balance_scan_snoc)
qed

lemma balance_step_kinds:
  assumes "balance_step (ls, rs) t = (ls', rs')"
    "\<forall>p \<in> set ls. is_left p \<or> is_quote p" "\<forall>p \<in> set rs. is_right p"
  shows "(\<forall>p \<in> set ls'. is_left p \<or> is_quote p) \<and> (\<forall>p \<in> set rs'. is_right p)"
  using assms
  by (auto simp: is_left_def is_quote_def is_right_def split: if_splits option.splits
      dest: notin_set_remove1)

lemma balance_scan_kinds:
  "(\<forall>p \<in> set (fst (balance_scan x)). is_left p \<or> is_quote p)
    \<and> (\<forall>p \<in> set (snd (balance_scan x)). is_right p)"
proof (induction x rule: rev_induct)
  case Nil
  then show ?case by (simp add: balance_scan_def)
next
  case (snoc t xs)
  obtain ls rs where s: "balance_scan xs = (ls, rs)" by force
  obtain ls' rs' where s': "balance_step (ls, rs) t = (ls', rs')" by force
  from balance_step_kinds[OF s'] snoc s s' show ?case
    by (simp add: balance_scan_snoc)
qed

lemma balance_scan_balanced: "balance_scan (balance_parentheses x) = ([], [])"
proof -
  obtain lsf rsf where s: "balance_scan x = (lsf, rsf)" by force
  let ?gR = "get_or_self PAIRED_R2L" and ?gL = "get_or_self PAIRED_L2R"
  have out: "balance_parentheses x = rev (map ?gR rsf) @ x @ map ?gL lsf"
    using s by (simp add: balance_closed)
  from balance_scan_kinds[of x] s
  have kinds: "\<forall>p \<in> set lsf. is_left p \<or> is_quote p" "\<forall>p \<in> set rsf. is_right p" by simp_all
  have "\<forall>t \<in> set (rev (map ?gR rsf)). is_left t"
  proof
    fix t assume "t \<in> set (rev (map ?gR rsf))"
    then obtain c where c: "c \<in> set rsf" "t = ?gR c" by auto
    with kinds(2) obtain l where l: "map_of PAIRED_R2L c = Some l" by (auto simp: is_right_def)
    from R2L_Some[OF l] l c show "is_left t" by (simp add: is_left_def get_or_self_def)
  qed
  then have 1: "foldl balance_step ([], []) (rev (map ?gR rsf)) = (map ?gR rsf, [])"
    using scan_lefts[of "rev (map ?gR rsf)" "[]" "[]"] by simp
  from s have "foldl balance_step ([], []) x = (lsf, rsf)" by (simp add: balance_scan_def)
  from scan_shadow[OF this] obtain fut where
    fut: "rsf = fut" "\<And>ls' rs'. mset ls' = mset (map ?gR fut) \<Longrightarrow>
        (\<exists>ls''. foldl balance_step (ls', rs') x = (ls'', rs') \<and> mset ls'' = mset lsf)"
    by auto
  from fut(2)[of "map ?gR rsf" "[]"] fut(1) obtain ls'' where
    2: "foldl balance_step (map ?gR rsf, []) x = (ls'', [])" "mset ls'' = mset lsf"
    by auto
  from scan_rights[OF 2(2) kinds(1)]
  have 3: "foldl balance_step (ls'', []) (map ?gL lsf) = ([], [])" .
  show ?thesis
    by (simp add: out balance_scan_def 1 2 3)
qed

lemma count_list_remove1:
  "a \<in> set xs \<Longrightarrow> count_list (remove1 a xs) b = (if a = b then count_list xs b - 1 else count_list xs b)"
  by (induction xs) auto

lemma count_list_pos: "a \<in> set xs \<Longrightarrow> 0 < count_list xs a"
  by (induction xs) auto

lemma balance_step_count:
  assumes lr: "map_of PAIRED_L2R l = Some r" and st: "balance_step (ls, rs) t = (ls', rs')"
  shows "count_list [t] l + count_list ls l + count_list rs' r
       = count_list [t] r + count_list rs r + count_list ls' l"
proof -
  note f = L2R_Some[OF lr]
  consider (A) "t \<in> set SYMM_QUOTES" "t \<in> set ls"
    | (B) "\<not> (t \<in> set SYMM_QUOTES \<and> t \<in> set ls)" "map_of PAIRED_L2R t \<noteq> None \<or> t \<in> set SYMM_QUOTES"
    | (C) l' where "map_of PAIRED_R2L t = Some l'" "l' \<in> set ls"
    | (D) l' where "map_of PAIRED_R2L t = Some l'" "l' \<notin> set ls"
    | (E) "t \<notin> set SYMM_QUOTES" "map_of PAIRED_L2R t = None" "map_of PAIRED_R2L t = None"
    by (cases "map_of PAIRED_R2L t") auto
  then show ?thesis
  proof cases
    case A
    with st have "ls' = remove1 t ls" "rs' = rs" by auto
    moreover have "t \<noteq> l" "t \<noteq> r" using A(1) f by auto
    ultimately show ?thesis using A(2) by (simp add: count_list_remove1)
  next
    case B
    with st have eq: "ls' = t # ls" "rs' = rs" by (auto split: if_splits)
    have "t \<noteq> r" using B(2) f by auto
    with eq show ?thesis by simp
  next
    case C
    from R2L_Some[OF C(1)] C st have eq: "ls' = remove1 l' ls" "rs' = rs" by auto
    have "t \<noteq> l" using C(1) f by auto
    moreover have "(t = r) = (l' = l)" using C(1) f R2L_Some[OF C(1)] lr by auto
    ultimately show ?thesis using eq C(2) count_list_pos[OF C(2)]
      by (auto simp: count_list_remove1)
  next
    case D
    from R2L_Some[OF D(1)] D st have eq: "ls' = ls" "rs' = t # rs" by auto
    have "t \<noteq> l" using D(1) f by auto
    with eq show ?thesis by simp
  next
    case E
    with st have eq: "ls' = ls" "rs' = rs" by auto
    have "t \<noteq> l" "t \<noteq> r" using E f lr by auto
    with eq show ?thesis by simp
  qed
qed

lemma balance_fold_count:
  assumes lr: "map_of PAIRED_L2R l = Some r"
  shows "foldl balance_step (ls, rs) x = (ls', rs') \<Longrightarrow>
     count_list x l + count_list ls l + count_list rs' r
       = count_list x r + count_list rs r + count_list ls' l"
proof (induction x arbitrary: ls rs)
  case Nil
  then show ?case by simp
next
  case (Cons t x)
  obtain ls1 rs1 where s1: "balance_step (ls, rs) t = (ls1, rs1)" by force
  with Cons.prems have "foldl balance_step (ls1, rs1) x = (ls', rs')" by simp
  moreover have "l \<noteq> r" using L2R_Some[OF lr] lr by auto
  ultimately show ?case
    using Cons.IH[of ls1 rs1] balance_step_count[OF lr s1] by (simp split: if_splits)
qed

lemma balance_step_rs_quote:
  "q \<in> set SYMM_QUOTES \<Longrightarrow> balance_step (ls, rs) t = (ls', rs') \<Longrightarrow>
   even (count_list [t] q + count_list ls q + count_list ls' q)"
  by (cases "map_of PAIRED_R2L t")
    (auto simp: count_list_remove1 dest: R2L_Some L2R_Some quote_tables count_list_pos split: if_splits)

lemma balance_fold_quote:
  assumes q: "q \<in> set SYMM_QUOTES"
  shows "foldl balance_step (ls, rs) x = (ls', rs') \<Longrightarrow>
     even (count_list x q + count_list ls q + count_list ls' q)"
proof (induction x arbitrary: ls rs)
  case Nil
  then show ?case by simp
next
  case (Cons t x)
  obtain ls1 rs1 where s1: "balance_step (ls, rs) t = (ls1, rs1)" by force
  with Cons.prems have "foldl balance_step (ls1, rs1) x = (ls', rs')" by simp
  from Cons.IH[OF this] balance_step_rs_quote[OF q s1] show ?case
    by (auto split: if_splits)
qed

lemma count_lefts_of_closes:
  "\<forall>p \<in> set rs. is_right p \<Longrightarrow> map_of PAIRED_L2R l = Some r \<Longrightarrow>
   count_list (map (get_or_self PAIRED_R2L) rs) l = count_list rs r
   \<and> count_list (map (get_or_self PAIRED_R2L) rs) r = 0"
proof (induction rs)
  case Nil
  then show ?case by simp
next
  case (Cons p rs)
  then obtain l' where l': "map_of PAIRED_R2L p = Some l'" by (auto simp: is_right_def)
  from R2L_Some[OF l'] L2R_Some[OF Cons.prems(2)] Cons l' show ?case
    by (auto simp: get_or_self_def)
qed

lemma count_rights_of_opens:
  "\<forall>p \<in> set ls. is_left p \<or> is_quote p \<Longrightarrow> map_of PAIRED_L2R l = Some r \<Longrightarrow>
   count_list (map (get_or_self PAIRED_L2R) ls) r = count_list ls l
   \<and> count_list (map (get_or_self PAIRED_L2R) ls) l = 0"
proof (induction ls)
  case Nil
  then show ?case by simp
next
  case (Cons p ls)
  note f = L2R_Some[OF Cons.prems(2)]
  show ?case
  proof (cases "map_of PAIRED_L2R p")
    case None
    with Cons.prems(1) have "p \<in> set SYMM_QUOTES" by (simp add: is_left_def is_quote_def)
    with f have "p \<noteq> l" "p \<noteq> r" by auto
    with Cons None show ?thesis by (simp add: get_or_self_def)
  next
    case (Some r')
    from L2R_Some[OF Some] f Some Cons.prems(2) have "(r' = r) = (p = l)" "r' \<noteq> l" by auto
    with Cons Some show ?thesis by (simp add: get_or_self_def)
  qed
qed

lemma count_quotes_added:
  "q \<in> set SYMM_QUOTES \<Longrightarrow> \<forall>p \<in> set rs. is_right p \<Longrightarrow>
   \<forall>p \<in> set ls. is_left p \<or> is_quote p \<Longrightarrow>
   count_list (map (get_or_self PAIRED_R2L) rs) q = 0
   \<and> count_list (map (get_or_self PAIRED_L2R) ls) q = count_list ls q"
proof -
  assume q: "q \<in> set SYMM_QUOTES" and rs: "\<forall>p \<in> set rs. is_right p"
    and ls: "\<forall>p \<in> set ls. is_left p \<or> is_quote p"
  have "q \<notin> set (map (get_or_self PAIRED_R2L) rs)"
  proof
    assume "q \<in> set (map (get_or_self PAIRED_R2L) rs)"
    then obtain c where c: "c \<in> set rs" "q = get_or_self PAIRED_R2L c" by auto
    with rs obtain l where l: "map_of PAIRED_R2L c = Some l" by (auto simp: is_right_def)
    from R2L_Some[OF l] c l q show False by (simp add: get_or_self_def)
  qed
  moreover from ls have "count_list (map (get_or_self PAIRED_L2R) ls) q = count_list ls q"
  proof (induction ls)
    case Nil
    then show ?case by simp
  next
    case (Cons p ls)
    show ?case
    proof (cases "map_of PAIRED_L2R p")
      case None
      with Cons show ?thesis by (simp add: get_or_self_def)
    next
      case (Some r')
      from L2R_Some[OF Some] q have "r' \<noteq> q" "p \<noteq> q" by auto
      with Cons Some show ?thesis by (simp add: get_or_self_def)
    qed
  qed
  ultimately show ?thesis by simp
qed

lemma balance_pair_counts:
  assumes lr: "map_of PAIRED_L2R l = Some r"
  shows "count_list (balance_parentheses x) l = count_list (balance_parentheses x) r"
proof -
  obtain lsf rsf where s: "balance_scan x = (lsf, rsf)" by force
  from balance_scan_kinds[of x] s
  have kinds: "\<forall>p \<in> set lsf. is_left p \<or> is_quote p" "\<forall>p \<in> set rsf. is_right p" by simp_all
  from s have "foldl balance_step ([], []) x = (lsf, rsf)" by (simp add: balance_scan_def)
  from balance_fold_count[OF lr this]
  have "count_list x l + count_list rsf r = count_list x r + count_list lsf l" by simp
  with count_lefts_of_closes[OF kinds(2) lr] count_rights_of_opens[OF kinds(1) lr] s
  show ?thesis by (simp add: balance_closed)
qed

lemma balance_quote_even:
  assumes q: "q \<in> set SYMM_QUOTES"
  shows "even (count_list (balance_parentheses x) q)"
proof -
  obtain lsf rsf where s: "balance_scan x = (lsf, rsf)" by force
  from balance_scan_kinds[of x] s
  have kinds: "\<forall>p \<in> set lsf. is_left p \<or> is_quote p" "\<forall>p \<in> set rsf. is_right p" by simp_all
  from s have "foldl balance_step ([], []) x = (lsf, rsf)" by (simp add: balance_scan_def)
  from balance_fold_quote[OF q this]
  have "even (count_list x q + count_list lsf q)" by simp
  with count_quotes_added[OF q kinds(2) kinds(1)] s
  show ?thesis by (simp add: balance_closed)
qed

lemma insert_lefts_foldl:
  "insert_lefts toks rs = foldl (\<lambda>t p. get_or_self PAIRED_R2L p # t) toks rs"
  by (induction rs arbitrary: toks) auto

lemma append_rights_foldl:
  "append_rights toks ls = foldl (\<lambda>t p. t @ [get_or_self PAIRED_L2R p]) toks ls"
  by (induction ls arbitrary: toks) auto

lemma count_list_mem_iff: "(a \<in> set xs) = (0 < count_list xs a)"
  using count_list_0_iff[of xs a] by auto

section \<open>Claims about \<open>balance_parentheses\<close>\<close>

text \<open>
  C4. Bracket balancing is idempotent: balancing a balanced token list changes nothing.
\<close>

theorem balance_parentheses_idempotent:
  "balance_parentheses (balance_parentheses x) = balance_parentheses x"
  by (simp add: balance_parentheses_def[of "balance_parentheses x"] balance_scan_balanced)

text \<open>
  C5. In the output of \<open>balance_parentheses\<close> every bracket token has a partner of its own
  pair: a left bracket occurs exactly as often as its right bracket, so one is present exactly
  when the other is, and a symmetric quote occurs an even number of times, so a quote that is
  present is present at least twice. The two scenarios of the specification are the tokens
  \<open>(\<close> and \<open>)\<close> around the word of code points 1087, 1088, 1080, 1084, 1077, 1088.
\<close>

theorem balance_parentheses_partners:
  "(map_of PAIRED_L2R l = Some r \<longrightarrow>
      count_list (balance_parentheses x) l = count_list (balance_parentheses x) r
      \<and> (l \<in> set (balance_parentheses x)) = (r \<in> set (balance_parentheses x)))
   \<and> (q \<in> set SYMM_QUOTES \<longrightarrow>
        even (count_list (balance_parentheses x) q)
        \<and> (q \<in> set (balance_parentheses x) \<longrightarrow> 2 \<le> count_list (balance_parentheses x) q))
   \<and> balance_parentheses [str ''('', [1087, 1088, 1080, 1084, 1077, 1088]]
        = [str ''('', [1087, 1088, 1080, 1084, 1077, 1088], str '')'']
   \<and> balance_parentheses [[1087, 1088, 1080, 1084, 1077, 1088], str '')'']
        = [str ''('', [1087, 1088, 1080, 1084, 1077, 1088], str '')'']"
proof (intro conjI impI)
  assume lr: "map_of PAIRED_L2R l = Some r"
  show "count_list (balance_parentheses x) l = count_list (balance_parentheses x) r"
    by (rule balance_pair_counts[OF lr])
  then show "(l \<in> set (balance_parentheses x)) = (r \<in> set (balance_parentheses x))"
    by (simp add: count_list_mem_iff)
next
  assume q: "q \<in> set SYMM_QUOTES"
  show e: "even (count_list (balance_parentheses x) q)"
    by (rule balance_quote_even[OF q])
  assume "q \<in> set (balance_parentheses x)"
  then have "0 < count_list (balance_parentheses x) q"
    by (simp add: count_list_mem_iff)
  with e show "2 \<le> count_list (balance_parentheses x) q"
    by (cases "count_list (balance_parentheses x) q = 1") auto
next
  show "balance_parentheses [str ''('', [1087, 1088, 1080, 1084, 1077, 1088]]
        = [str ''('', [1087, 1088, 1080, 1084, 1077, 1088], str '')'']"
    by (simp add: balance_parentheses_def balance_scan_def table_defs get_or_self_def)
next
  show "balance_parentheses [[1087, 1088, 1080, 1084, 1077, 1088], str '')'']
        = [str ''('', [1087, 1088, 1080, 1084, 1077, 1088], str '')'']"
    by (simp add: balance_parentheses_def balance_scan_def table_defs get_or_self_def)
qed

theorem balance_parentheses_partners_witness:
  "map_of PAIRED_L2R (str ''['') = Some (str '']'') \<and> [34] \<in> set SYMM_QUOTES
   \<and> [34] \<in> set (balance_parentheses [str '']'', [34], str ''a''])
   \<and> count_list (balance_parentheses [str '']'', [34], str ''a'']) (str ''['')
       = count_list (balance_parentheses [str '']'', [34], str ''a'']) (str '']'')
   \<and> 2 \<le> count_list (balance_parentheses [str '']'', [34], str ''a'']) [34]"
  using balance_parentheses_partners[of "str ''[''" "str '']''" "[str '']'', [34], str ''a'']" "[34]"]
  by (simp add: balance_parentheses_def balance_scan_def table_defs get_or_self_def)

text \<open>
  C6, as amended. After the scan, the entries left on the stack of unmatched closes are taken
  from the entry pushed last to the entry pushed first, and the left counterpart of each is
  inserted at the front of the token list; then the entries left on the stack of unmatched
  opens are taken in the same order, last pushed first, which is the reverse of the order in
  which they were pushed, and the right counterpart of each is appended at the end. Each
  stack, read from its head, holds tokens of the text in reverse text order. Hence the output
  starts with the left counterparts of the unmatched closes in text order and ends with the
  right counterparts of the unmatched opens, the last opened first.
\<close>

theorem balance_parentheses_repair_order:
  assumes "balance_scan x = (left_stack, right_stack)"
  shows "balance_parentheses x =
           foldl (\<lambda>t p. t @ [get_or_self PAIRED_L2R p])
             (foldl (\<lambda>t p. get_or_self PAIRED_R2L p # t) x right_stack) left_stack
         \<and> balance_parentheses x =
             map (get_or_self PAIRED_R2L) (rev right_stack) @ x
               @ map (get_or_self PAIRED_L2R) left_stack
         \<and> subseq right_stack (rev x) \<and> subseq left_stack (rev x)"
proof (intro conjI)
  show "balance_parentheses x =
           foldl (\<lambda>t p. t @ [get_or_self PAIRED_L2R p])
             (foldl (\<lambda>t p. get_or_self PAIRED_R2L p # t) x right_stack) left_stack"
    using assms by (simp add: balance_parentheses_def insert_lefts_foldl append_rights_foldl)
  show "balance_parentheses x =
             map (get_or_self PAIRED_R2L) (rev right_stack) @ x
               @ map (get_or_self PAIRED_L2R) left_stack"
    using assms by (simp add: balance_closed rev_map)
  show "subseq right_stack (rev x)" "subseq left_stack (rev x)"
    using balance_scan_subseq[of x] assms by simp_all
qed

theorem balance_parentheses_repair_order_witness:
  "balance_scan [str '')'', str '']'', str ''a'', str ''('', str ''{''] = ([str ''{'', str ''(''], [str '']'', str '')''])
   \<and> balance_parentheses [str '')'', str '']'', str ''a'', str ''('', str ''{'']
       = [str ''('', str ''['', str '')'', str '']'', str ''a'', str ''('', str ''{'', str ''}'', str '')'']"
proof -
  have s: "balance_scan [str '')'', str '']'', str ''a'', str ''('', str ''{''] = ([str ''{'', str ''(''], [str '']'', str '')''])"
    by (simp add: balance_scan_def table_defs)
  from balance_parentheses_repair_order[OF s] s show ?thesis
    by (simp add: table_defs get_or_self_def)
qed

theorem balance_parentheses_repair_order_counterexample:
  "balance_parentheses [str ''('', str ''{''] = [str ''('', str ''{'', str ''}'', str '')'']
   \<and> balance_parentheses_spec [str ''('', str ''{''] = [str ''('', str ''{'', str '')'', str ''}'']
   \<and> balance_parentheses [str ''('', str ''{''] \<noteq> balance_parentheses_spec [str ''('', str ''{'']"
  by (simp add: balance_parentheses_def balance_parentheses_spec_def balance_scan_def
      table_defs get_or_self_def)

text \<open>
  C9. The output of \<open>balance_parentheses\<close> is the input, unchanged and in its order, between a
  list of left brackets put before it and a list of closing tokens put after it (right
  brackets, and the symmetric quote that closes an open quote).
\<close>

theorem balance_parentheses_preserves_input:
  "\<exists>pre post. balance_parentheses x = pre @ x @ post
     \<and> list_all is_left pre \<and> list_all (\<lambda>t. is_right t \<or> is_quote t) post"
proof -
  obtain lsf rsf where s: "balance_scan x = (lsf, rsf)" by force
  let ?gR = "get_or_self PAIRED_R2L" and ?gL = "get_or_self PAIRED_L2R"
  from balance_scan_kinds[of x] s
  have kinds: "\<forall>p \<in> set lsf. is_left p \<or> is_quote p" "\<forall>p \<in> set rsf. is_right p" by simp_all
  have "list_all is_left (rev (map ?gR rsf))"
    unfolding list_all_iff
  proof
    fix t assume "t \<in> set (rev (map ?gR rsf))"
    then obtain c where c: "c \<in> set rsf" "t = ?gR c" by auto
    with kinds(2) obtain l where l: "map_of PAIRED_R2L c = Some l" by (auto simp: is_right_def)
    from R2L_Some[OF l] l c show "is_left t" by (simp add: is_left_def get_or_self_def)
  qed
  moreover have "list_all (\<lambda>t. is_right t \<or> is_quote t) (map ?gL lsf)"
    unfolding list_all_iff
  proof
    fix t assume "t \<in> set (map ?gL lsf)"
    then obtain p where p: "p \<in> set lsf" "t = ?gL p" by auto
    show "is_right t \<or> is_quote t"
    proof (cases "map_of PAIRED_L2R p")
      case None
      with kinds(1) p show ?thesis by (auto simp: is_left_def get_or_self_def)
    next
      case (Some r)
      from L2R_Some[OF Some] Some p show ?thesis by (simp add: is_right_def get_or_self_def)
    qed
  qed
  moreover have "balance_parentheses x = rev (map ?gR rsf) @ x @ map ?gL lsf"
    using s by (simp add: balance_closed)
  ultimately show ?thesis by blast
qed

theorem balance_parentheses_preserves_input_witness:
  "\<exists>pre post. balance_parentheses [str ''a'', str '')'', [34]] = pre @ [str ''a'', str '')'', [34]] @ post
     \<and> list_all is_left pre \<and> list_all (\<lambda>t. is_right t \<or> is_quote t) post"
  by (rule balance_parentheses_preserves_input)

section \<open>Facts about \<open>detokenize\<close>\<close>

lemma sep_after_Nil: "sep_after [] = []"
  by (simp add: sep_after_def)

lemma sep_after_snoc:
  "sep_after (toks @ [t]) =
     (if attaches t then sep_after toks else if is_left t then [] else str '' '')"
  by (simp add: sep_after_def Let_def)

lemma detokenize_state_snoc:
  "foldl detokenize_step ([], []) (toks @ [t]) =
     (fst (foldl detokenize_step ([], []) toks)
        @ [if attaches t then t else snd (foldl detokenize_step ([], []) toks) @ t],
      if attaches t then snd (foldl detokenize_step ([], []) toks)
      else if is_left t then [] else str '' '')"
  by (cases "foldl detokenize_step ([], []) toks") (simp add: attaches_def is_left_def)

lemma detokenize_sep: "snd (foldl detokenize_step ([], []) toks) = sep_after toks"
proof (induction toks rule: rev_induct)
  case Nil
  then show ?case by (simp add: sep_after_Nil)
next
  case (snoc t toks)
  then show ?case
    by (simp only: detokenize_state_snoc sep_after_snoc snd_conv)
qed

lemma detokenize_snoc:
  "detokenize (toks @ [t]) = detokenize toks @ (if attaches t then t else sep_after toks @ t)"
  by (simp add: detokenize_def detokenize_state_snoc detokenize_sep del: foldl_append)

lemma in_punct_set_attaches: "in_punct_set t \<Longrightarrow> attaches t"
  by (auto simp: in_punct_set_def attaches_def UNPAIRED_PUNCT_def str_def split: list.splits)

lemma is_left_not_attaches: "is_left t \<Longrightarrow> \<not> attaches t"
  by (auto simp: is_left_def attaches_def UNPAIRED_PUNCT_def table_defs split: if_splits)

text \<open>
  C7, as amended. \<open>detokenize\<close> appends the tokens one by one. A token that occurs in the
  string of unpaired punctuation (each of its characters does) or is a right bracket is
  appended with no separator and leaves the separator flag as it is; any other token is
  appended after the current flag and then sets the flag, to empty if it is a left bracket
  and to a single space otherwise. The flag is empty at the start. So no space is emitted
  before punctuation or a right bracket, nor after a left bracket.
\<close>

theorem detokenize_separator_rule:
  "detokenize [] = []
   \<and> detokenize (toks @ [t]) = detokenize toks @ (if attaches t then t else sep_after toks @ t)
   \<and> sep_after [] = []
   \<and> sep_after (toks @ [t]) =
       (if attaches t then sep_after toks else if is_left t then [] else str '' '')
   \<and> (in_punct_set t \<or> is_right t \<longrightarrow> attaches t)
   \<and> (is_left t \<longrightarrow> \<not> attaches t \<and> detokenize (toks @ [t, u]) = detokenize (toks @ [t]) @ u)"
proof (intro conjI impI)
  show "detokenize [] = []" by (simp add: detokenize_def)
  show "detokenize (toks @ [t]) = detokenize toks @ (if attaches t then t else sep_after toks @ t)"
    by (rule detokenize_snoc)
  show "sep_after [] = []" by (rule sep_after_Nil)
  show "sep_after (toks @ [t]) =
       (if attaches t then sep_after toks else if is_left t then [] else str '' '')"
    by (rule sep_after_snoc)
next
  assume "in_punct_set t \<or> is_right t"
  then show "attaches t"
    using in_punct_set_attaches[of t] by (auto simp: attaches_def is_right_def)
next
  assume l: "is_left t"
  then show "\<not> attaches t" by (rule is_left_not_attaches)
  with l have "sep_after (toks @ [t]) = []" by (simp add: sep_after_snoc)
  then show "detokenize (toks @ [t, u]) = detokenize (toks @ [t]) @ u"
    using detokenize_snoc[of "toks @ [t]" u] by simp
qed

theorem detokenize_separator_rule_witness:
  "in_punct_set (str '','') \<and> is_left (str ''('')
   \<and> detokenize ([str ''a'', str ''(''] @ [str '','']) = detokenize [str ''a'', str ''(''] @ str '',''
   \<and> detokenize ([str ''a''] @ [str ''('', str ''b'']) = detokenize ([str ''a''] @ [str ''(''] ) @ str ''b''
   \<and> detokenize [str ''a'', str ''('', str ''b''] = str ''a (b''"
  using detokenize_separator_rule[of "[str ''a'', str ''('']" "str '',''" "str ''b''"]
    detokenize_separator_rule[of "[str ''a'']" "str ''(''" "str ''b''"]
  by (simp add: in_punct_set_def is_left_def is_right_def attaches_def detokenize_def UNPAIRED_PUNCT_def table_defs)

theorem detokenize_separator_counterexample:
  "detokenize [str '','', str ''a''] = str '',a''
   \<and> detokenize_spec [str '','', str ''a''] = str '', a''
   \<and> detokenize [str '','', str ''a''] \<noteq> detokenize_spec [str '','', str ''a'']"
  by (simp add: detokenize_def detokenize_spec_def in_punct_set_def is_left_def is_right_def
      UNPAIRED_PUNCT_def table_defs)

section \<open>Claims about \<open>process\<close> and \<open>inflect\<close>\<close>

lemma inflect_returns:
  "morph self w \<noteq> [] \<Longrightarrow> \<exists>r. inflect self w pos g = Inr r"
  by (auto simp: inflect_def split: list.splits option.splits)

lemma map_result_returns:
  "(\<And>x. x \<in> set xs \<Longrightarrow> \<exists>y. f x = Inr y) \<Longrightarrow> \<exists>ys. map_result f xs = Inr ys"
proof (induction xs)
  case Nil
  then show ?case by simp
next
  case (Cons x xs)
  from Cons.prems[of x] obtain y where y: "f x = Inr y" by auto
  from Cons.IH Cons.prems obtain ys where "map_result f xs = Inr ys" by auto
  with y show ?case by simp
qed

lemma normalize_token_returns:
  "\<forall>w. morph self w \<noteq> [] \<Longrightarrow> \<exists>r. normalize_token self d g t = Inr r"
  using inflect_returns[of self] by (simp add: normalize_token_def)

lemma normalize_tokens_returns:
  assumes "toks \<noteq> []" "[] \<notin> set toks" "\<forall>w. morph self w \<noteq> []"
  shows "\<exists>toks1. normalize_tokens self toks = Inr toks1"
proof (cases "tok_pos (doc_root (syntax_parser self toks)) = str ''NOUN''")
  case True
  from map_result_returns[of "doc_tokens (syntax_parser self toks)"
      "normalize_token self (syntax_parser self toks)
         (get_noun_grammemes (doc_root (syntax_parser self toks)))"]
    normalize_token_returns[OF assms(3)]
  obtain ys where "map_result (normalize_token self (syntax_parser self toks)
         (get_noun_grammemes (doc_root (syntax_parser self toks))))
       (doc_tokens (syntax_parser self toks)) = Inr ys"
    by blast
  with True assms(1,2) show ?thesis by (simp add: normalize_tokens_def Let_def)
next
  case False
  with assms(1,2) show ?thesis by (simp add: normalize_tokens_def Let_def)
qed

lemma process_after_normalize:
  assumes "(if do_normalize self then normalize_tokens self toks else Inr toks) = Inr toks1"
  shows "(detokenize (balance_parentheses toks1) \<noteq> [] \<longrightarrow>
            process self toks = Inr (str_upper self [hd (detokenize (balance_parentheses toks1))]
                                      @ tl (detokenize (balance_parentheses toks1))))
         \<and> (detokenize (balance_parentheses toks1) = [] \<longrightarrow> process self toks = Inl IndexError)
         \<and> ((\<exists>e. process self toks = Inl e) = (detokenize (balance_parentheses toks1) = []))"
  using assms by (auto simp: process_def split: if_splits list.splits)

text \<open>
  C8, as amended. When normalization is disabled, or it is enabled and the token list is not
  empty, has no empty token and the analyser returns at least one parse for every word, then
  normalization returns a token list; with \<open>s\<close> the detokenized, balanced form of that list
  (of the given list when normalization is disabled), \<open>process\<close> returns the uppercased first
  character of \<open>s\<close> followed by the rest of \<open>s\<close> unchanged when \<open>s\<close> is not empty, and it fails
  exactly when \<open>s\<close> is empty, with \<open>IndexError\<close>. With normalization enabled \<open>process\<close> fails
  also whenever normalization does: with \<open>ValueError\<close> when a token is the empty string, with
  \<open>IndexError\<close> when the token list is empty, and with the error of \<open>inflect\<close> when the
  analyser returns no parse.
\<close>

theorem process_capitalizes_first:
  "((\<not> do_normalize self \<or> (toks \<noteq> [] \<and> [] \<notin> set toks \<and> (\<forall>w. morph self w \<noteq> []))) \<longrightarrow>
      (\<exists>toks1 s. (if do_normalize self then normalize_tokens self toks else Inr toks) = Inr toks1
         \<and> s = detokenize (balance_parentheses toks1)
         \<and> (s \<noteq> [] \<longrightarrow> process self toks = Inr (str_upper self [hd s] @ tl s))
         \<and> (s = [] \<longrightarrow> process self toks = Inl IndexError)
         \<and> ((\<exists>e. process self toks = Inl e) = (s = []))))
   \<and> (do_normalize self \<and> [] \<in> set toks \<longrightarrow> process self toks = Inl ValueError)
   \<and> (do_normalize self \<and> toks = [] \<longrightarrow> process self toks = Inl IndexError)
   \<and> (do_normalize self \<and> normalize_tokens self toks = Inl e \<longrightarrow> process self toks = Inl e)"
proof (intro conjI impI)
  assume h: "\<not> do_normalize self \<or> (toks \<noteq> [] \<and> [] \<notin> set toks \<and> (\<forall>w. morph self w \<noteq> []))"
  have "\<exists>toks1. (if do_normalize self then normalize_tokens self toks else Inr toks) = Inr toks1"
  proof (cases "do_normalize self")
    case True
    with h normalize_tokens_returns[of toks self] show ?thesis by simp
  next
    case False
    then show ?thesis by simp
  qed
  then obtain toks1 where
    n: "(if do_normalize self then normalize_tokens self toks else Inr toks) = Inr toks1" ..
  from process_after_normalize[OF n] n
  show "\<exists>toks1 s. (if do_normalize self then normalize_tokens self toks else Inr toks) = Inr toks1
         \<and> s = detokenize (balance_parentheses toks1)
         \<and> (s \<noteq> [] \<longrightarrow> process self toks = Inr (str_upper self [hd s] @ tl s))
         \<and> (s = [] \<longrightarrow> process self toks = Inl IndexError)
         \<and> ((\<exists>e. process self toks = Inl e) = (s = []))"
    by (intro exI[of _ toks1] exI[of _ "detokenize (balance_parentheses toks1)"]) simp
next
  assume "do_normalize self \<and> [] \<in> set toks"
  then show "process self toks = Inl ValueError"
    by (simp add: process_def normalize_tokens_def)
next
  assume "do_normalize self \<and> toks = []"
  then show "process self toks = Inl IndexError"
    by (simp add: process_def normalize_tokens_def)
next
  assume "do_normalize self \<and> normalize_tokens self toks = Inl e"
  then show "process self toks = Inl e"
    by (simp add: process_def)
qed

theorem process_capitalizes_first_witness:
  "[str ''teplovogo'', str ''vozdejstviya''] \<noteq> []
   \<and> [] \<notin> set [str ''teplovogo'', str ''vozdejstviya'']
   \<and> normalize_tokens
        \<lparr>do_normalize = True,
         syntax_parser = (\<lambda>ws. \<lparr>doc_tokens =
             [\<lparr>tok_i = 0, tok_text = str ''teplovogo'', tok_pos = str ''ADJ'', tok_dep = str ''amod'',
               tok_head = 1, morph_Number = [str ''Sing''], morph_Gender = [str ''Neut'']\<rparr>,
              \<lparr>tok_i = 1, tok_text = str ''vozdejstviya'', tok_pos = str ''NOUN'', tok_dep = str ''ROOT'',
               tok_head = 1, morph_Number = [str ''Sing''], morph_Gender = [str ''Neut'']\<rparr>],
            doc_root =
              \<lparr>tok_i = 1, tok_text = str ''vozdejstviya'', tok_pos = str ''NOUN'', tok_dep = str ''ROOT'',
               tok_head = 1, morph_Number = [str ''Sing''], morph_Gender = [str ''Neut'']\<rparr>\<rparr>),
         morph = (\<lambda>w. [\<lparr>tag_POS = Some (if w = str ''teplovogo'' then str ''ADJF'' else str ''NOUN''),
             inflect_word = (\<lambda>g. if w = str ''teplovogo''
                                  then (if str ''neut'' \<in> g then Some (str ''teplovoe'') else None)
                                else if w = str ''vozdejstviya'' then Some (str ''vozdejstvie'')
                                else None)\<rparr>]),
         predictor = (\<lambda>t. []),
         str_upper = map (\<lambda>c. if 97 \<le> c \<and> c \<le> 122 then c - 32 else c)\<rparr>
        [str ''teplovogo'', str ''vozdejstviya'']
      = Inr [str ''teplovoe'', str ''vozdejstvie'']
   \<and> process
        \<lparr>do_normalize = True,
         syntax_parser = (\<lambda>ws. \<lparr>doc_tokens =
             [\<lparr>tok_i = 0, tok_text = str ''teplovogo'', tok_pos = str ''ADJ'', tok_dep = str ''amod'',
               tok_head = 1, morph_Number = [str ''Sing''], morph_Gender = [str ''Neut'']\<rparr>,
              \<lparr>tok_i = 1, tok_text = str ''vozdejstviya'', tok_pos = str ''NOUN'', tok_dep = str ''ROOT'',
               tok_head = 1, morph_Number = [str ''Sing''], morph_Gender = [str ''Neut'']\<rparr>],
            doc_root =
              \<lparr>tok_i = 1, tok_text = str ''vozdejstviya'', tok_pos = str ''NOUN'', tok_dep = str ''ROOT'',
               tok_head = 1, morph_Number = [str ''Sing''], morph_Gender = [str ''Neut'']\<rparr>\<rparr>),
         morph = (\<lambda>w. [\<lparr>tag_POS = Some (if w = str ''teplovogo'' then str ''ADJF'' else str ''NOUN''),
             inflect_word = (\<lambda>g. if w = str ''teplovogo''
                                  then (if str ''neut'' \<in> g then Some (str ''teplovoe'') else None)
                                else if w = str ''vozdejstviya'' then Some (str ''vozdejstvie'')
                                else None)\<rparr>]),
         predictor = (\<lambda>t. []),
         str_upper = map (\<lambda>c. if 97 \<le> c \<and> c \<le> 122 then c - 32 else c)\<rparr>
        [str ''teplovogo'', str ''vozdejstviya'']
      = Inr (str ''Teplovoe vozdejstvie'')"
proof -
  let ?self = "\<lparr>do_normalize = True,
         syntax_parser = (\<lambda>ws. \<lparr>doc_tokens =
             [\<lparr>tok_i = 0, tok_text = str ''teplovogo'', tok_pos = str ''ADJ'', tok_dep = str ''amod'',
               tok_head = 1, morph_Number = [str ''Sing''], morph_Gender = [str ''Neut'']\<rparr>,
              \<lparr>tok_i = 1, tok_text = str ''vozdejstviya'', tok_pos = str ''NOUN'', tok_dep = str ''ROOT'',
               tok_head = 1, morph_Number = [str ''Sing''], morph_Gender = [str ''Neut'']\<rparr>],
            doc_root =
              \<lparr>tok_i = 1, tok_text = str ''vozdejstviya'', tok_pos = str ''NOUN'', tok_dep = str ''ROOT'',
               tok_head = 1, morph_Number = [str ''Sing''], morph_Gender = [str ''Neut'']\<rparr>\<rparr>),
         morph = (\<lambda>w. [\<lparr>tag_POS = Some (if w = str ''teplovogo'' then str ''ADJF'' else str ''NOUN''),
             inflect_word = (\<lambda>g. if w = str ''teplovogo''
                                  then (if str ''neut'' \<in> g then Some (str ''teplovoe'') else None)
                                else if w = str ''vozdejstviya'' then Some (str ''vozdejstvie'')
                                else None)\<rparr>]),
         predictor = (\<lambda>t. []),
         str_upper = map (\<lambda>c::nat. if 97 \<le> c \<and> c \<le> 122 then c - 32 else c)\<rparr>"
  let ?toks = "[str ''teplovogo'', str ''vozdejstviya'']"
  have h: "\<not> do_normalize ?self \<or> (?toks \<noteq> [] \<and> [] \<notin> set ?toks \<and> (\<forall>w. morph ?self w \<noteq> []))"
    by (simp add: str_def)
  have n: "normalize_tokens ?self ?toks = Inr [str ''teplovoe'', str ''vozdejstvie'']"
    by (simp add: normalize_tokens_def normalize_token_def children_def inflect_def pos_matches_def
        get_noun_grammemes_def GRAMMEME_MAPPING_def NOUN_DEP_def str_def)
  have d: "detokenize (balance_parentheses [str ''teplovoe'', str ''vozdejstvie''])
      = str ''teplovoe vozdejstvie''"
    by (simp add: detokenize_def balance_parentheses_def balance_scan_def get_or_self_def
        UNPAIRED_PUNCT_def table_defs)
  from process_capitalizes_first[of ?self ?toks, THEN conjunct1, rule_format, OF h]
  obtain toks1 s where
    r: "(if do_normalize ?self then normalize_tokens ?self ?toks else Inr ?toks) = Inr toks1"
      "s = detokenize (balance_parentheses toks1)"
      "s \<noteq> [] \<longrightarrow> process ?self ?toks = Inr (str_upper ?self [hd s] @ tl s)"
    by blast
  from r(1) n have t: "toks1 = [str ''teplovoe'', str ''vozdejstvie'']" by simp
  from r(2) have s: "s = str ''teplovoe vozdejstvie''" unfolding t d .
  from r(3) have "process ?self ?toks = Inr (str ''Teplovoe vozdejstvie'')"
    unfolding s by (simp add: str_def)
  with n show ?thesis by (simp add: str_def)
qed

theorem process_capitalizes_first_counterexample:
  "detokenize (balance_parentheses [str ''a'']) = str ''a''
   \<and> process
        \<lparr>do_normalize = True,
         syntax_parser = (\<lambda>ws. \<lparr>doc_tokens =
             [\<lparr>tok_i = 0, tok_text = str ''a'', tok_pos = str ''NOUN'', tok_dep = str ''ROOT'',
               tok_head = 0, morph_Number = [], morph_Gender = []\<rparr>],
            doc_root =
              \<lparr>tok_i = 0, tok_text = str ''a'', tok_pos = str ''NOUN'', tok_dep = str ''ROOT'',
               tok_head = 0, morph_Number = [], morph_Gender = []\<rparr>\<rparr>),
         morph = (\<lambda>w. []), predictor = (\<lambda>t. []), str_upper = (\<lambda>s. s)\<rparr>
        [str ''a'']
      = Inl IndexError
   \<and> detokenize (balance_parentheses [[], str ''a'']) = str ''a''
   \<and> process
        \<lparr>do_normalize = True,
         syntax_parser = (\<lambda>ws. \<lparr>doc_tokens =
             [\<lparr>tok_i = 0, tok_text = str ''a'', tok_pos = str ''NOUN'', tok_dep = str ''ROOT'',
               tok_head = 0, morph_Number = [], morph_Gender = []\<rparr>],
            doc_root =
              \<lparr>tok_i = 0, tok_text = str ''a'', tok_pos = str ''NOUN'', tok_dep = str ''ROOT'',
               tok_head = 0, morph_Number = [], morph_Gender = []\<rparr>\<rparr>),
         morph = (\<lambda>w. []), predictor = (\<lambda>t. []), str_upper = (\<lambda>s. s)\<rparr>
        [[], str ''a'']
      = Inl ValueError"
  by (simp add: process_def normalize_tokens_def normalize_token_def children_def inflect_def
      detokenize_def balance_parentheses_def balance_scan_def get_or_self_def
      UNPAIRED_PUNCT_def table_defs)

lemma for_parse_find:
  "for_parse p0 ps pos =
     (case find (\<lambda>p. pos_matches p pos) ps of
        Some p \<Rightarrow> p
      | None \<Rightarrow> last (p0 # ps))"
  by (induction ps arbitrary: p0) (auto split: option.splits)

text \<open>
  C3. What \<open>inflect\<close> does: it takes the first parse whose part of speech starts with one of
  the prefixes, and when there is none the last parse of the list, not the first; when that
  parse has no form with the grammemes the token is returned. With two parses of which none
  matches, the form of the second is returned.
\<close>

theorem inflect_no_match_takes_last_parse:
  "inflect self token pos grammemes =
     (case morph self token of
        [] \<Rightarrow> Inl IndexError
      | p0 # ps \<Rightarrow>
          (case inflect_word
                  (case find (\<lambda>p. pos_matches p pos) (p0 # ps) of
                     Some p \<Rightarrow> p
                   | None \<Rightarrow> last (p0 # ps)) grammemes of
             Some word \<Rightarrow> Inr word
           | None \<Rightarrow> Inr token))
   \<and> inflect \<lparr>do_normalize = True,
            syntax_parser = (\<lambda>ws. \<lparr>doc_tokens = [], doc_root = \<lparr>tok_i = 0, tok_text = [], tok_pos = [],
               tok_dep = [], tok_head = 0, morph_Number = [], morph_Gender = []\<rparr>\<rparr>),
            morph = (\<lambda>w. [\<lparr>tag_POS = Some (str ''ADJF''), inflect_word = (\<lambda>g. Some (str ''first''))\<rparr>,
                           \<lparr>tag_POS = Some (str ''VERB''), inflect_word = (\<lambda>g. Some (str ''last''))\<rparr>]),
            predictor = (\<lambda>t. []), str_upper = (\<lambda>s. s)\<rparr>
        (str ''word'') [str ''NOUN''] {str ''nomn''}
      = Inr (str ''last'')"
proof (intro conjI)
  show "inflect self token pos grammemes =
     (case morph self token of
        [] \<Rightarrow> Inl IndexError
      | p0 # ps \<Rightarrow>
          (case inflect_word
                  (case find (\<lambda>p. pos_matches p pos) (p0 # ps) of
                     Some p \<Rightarrow> p
                   | None \<Rightarrow> last (p0 # ps)) grammemes of
             Some word \<Rightarrow> Inr word
           | None \<Rightarrow> Inr token))"
    by (auto simp: inflect_def for_parse_find split: list.splits option.splits)
next
  show "inflect \<lparr>do_normalize = True,
            syntax_parser = (\<lambda>ws. \<lparr>doc_tokens = [], doc_root = \<lparr>tok_i = 0, tok_text = [], tok_pos = [],
               tok_dep = [], tok_head = 0, morph_Number = [], morph_Gender = []\<rparr>\<rparr>),
            morph = (\<lambda>w. [\<lparr>tag_POS = Some (str ''ADJF''), inflect_word = (\<lambda>g. Some (str ''first''))\<rparr>,
                           \<lparr>tag_POS = Some (str ''VERB''), inflect_word = (\<lambda>g. Some (str ''last''))\<rparr>]),
            predictor = (\<lambda>t. []), str_upper = (\<lambda>s. s)\<rparr>
        (str ''word'') [str ''NOUN''] {str ''nomn''}
      = Inr (str ''last'')"
    by (simp add: inflect_def pos_matches_def str_def)
qed

section \<open>Facts about substrings and \<open>split\<close>\<close>

lemma py_in_str_sublist: "py_in_str a b = sublist a b"
  by (induction b) (auto simp: sublist_Cons_right)

lemma split_on_nonempty: "split_on sep s \<noteq> []"
  by (induction s) (auto split: list.splits)

lemma hd_split_on: "hd (split_on sep s) = takeWhile (\<lambda>x. x \<noteq> sep) s"
  using split_on_nonempty[of sep] by (induction s) (auto split: list.splits)

lemma split_on_Cons:
  "split_on sep (c # cs) =
     (if c = sep then [] # split_on sep cs
      else (c # hd (split_on sep cs)) # tl (split_on sep cs))"
  using split_on_nonempty[of sep cs] by (auto split: list.splits)

lemma field_sublist: "w \<in> set (split_on sep s) \<Longrightarrow> sublist w s"
proof (induction s arbitrary: w)
  case Nil
  then show ?case by simp
next
  case (Cons c cs)
  show ?case
  proof (cases "c = sep")
    case True
    with Cons.prems have "w = [] \<or> w \<in> set (split_on sep cs)" by simp
    with Cons.IH show ?thesis by (auto simp: sublist_Cons_right)
  next
    case False
    with Cons.prems have "w = c # hd (split_on sep cs) \<or> w \<in> set (tl (split_on sep cs))"
      by (simp add: split_on_Cons del: split_on.simps)
    then show ?thesis
    proof
      assume "w = c # hd (split_on sep cs)"
      then have "prefix w (c # cs)"
        by (simp add: hd_split_on takeWhile_is_prefix)
      then show ?thesis by (rule prefix_imp_sublist)
    next
      assume "w \<in> set (tl (split_on sep cs))"
      then have "w \<in> set (split_on sep cs)"
        using split_on_nonempty[of sep cs] by (meson list.set_sel(2))
      with Cons.IH show ?thesis by (simp add: sublist_Cons_right)
    qed
  qed
qed

lemma prefix_hd_split_on:
  assumes "prefix a s" "sep \<notin> set a"
  shows "prefix a (hd (split_on sep s))"
proof -
  from assms(1) obtain r where "s = a @ r" by (auto simp: prefix_def)
  moreover have "takeWhile (\<lambda>x. x \<noteq> sep) (a @ r) = a @ takeWhile (\<lambda>x. x \<noteq> sep) r"
    using assms(2) by (intro takeWhile_append2) auto
  ultimately show ?thesis by (simp add: hd_split_on)
qed

lemma sublist_split_on:
  "sublist a s \<Longrightarrow> sep \<notin> set a \<Longrightarrow> \<exists>w \<in> set (split_on sep s). sublist a w"
proof (induction s)
  case Nil
  then show ?case by simp
next
  case (Cons c cs)
  from Cons.prems(1) consider "prefix a (c # cs)" | "sublist a cs"
    by (auto simp: sublist_Cons_right)
  then show ?case
  proof cases
    case 1
    from prefix_hd_split_on[OF this Cons.prems(2)]
    have "sublist a (hd (split_on sep (c # cs)))" by (rule prefix_imp_sublist)
    moreover have "hd (split_on sep (c # cs)) \<in> set (split_on sep (c # cs))"
      using split_on_nonempty[of sep "c # cs"] by (meson list.set_sel(1))
    ultimately show ?thesis by blast
  next
    case 2
    from Cons.IH[OF this Cons.prems(2)] obtain w where
      w: "w \<in> set (split_on sep cs)" "sublist a w" by blast
    show ?thesis
    proof (cases "c = sep")
      case True
      with w show ?thesis by auto
    next
      case False
      from w(1) split_on_nonempty[of sep cs]
      have "w = hd (split_on sep cs) \<or> w \<in> set (tl (split_on sep cs))"
        by (cases "split_on sep cs") auto
      then show ?thesis
      proof
        assume "w = hd (split_on sep cs)"
        with w(2) have "sublist a (c # hd (split_on sep cs))" by (simp add: sublist_Cons_right)
        with False show ?thesis by (simp add: split_on_Cons del: split_on.simps)
      next
        assume "w \<in> set (tl (split_on sep cs))"
        with w(2) False show ?thesis by (auto simp add: split_on_Cons simp del: split_on.simps)
      qed
    qed
  qed
qed

section \<open>Facts about the vocabulary\<close>

lemma vocab_substring:
  "c \<in> set ASPECTS_LIST \<Longrightarrow> w \<in> set ASPECTS_LIST \<Longrightarrow> py_in_str c w \<Longrightarrow> c = w"
  by (auto simp: ASPECTS_LIST_def str_def)

lemma vocab_no_pipe: "c \<in> set ASPECTS_LIST \<Longrightarrow> 124 \<notin> set c"
  by (auto simp: ASPECTS_LIST_def str_def)

lemma vocab_not_in_O: "c \<in> set ASPECTS_LIST \<Longrightarrow> \<not> py_in_str c (str ''O'') \<and> c \<noteq> str ''O'' \<and> c \<noteq> []"
  by (auto simp: ASPECTS_LIST_def str_def)

lemma wf_label_aspects:
  assumes "wf_label l"
  shows "distinct (aspects_for_token l) \<and> set (aspects_for_token l) \<subseteq> set ASPECTS_LIST"
  using assms vocab_not_in_O
  by (auto simp: wf_label_def aspects_for_token_def Let_def list_all_iff str_def)

lemma wf_label_substring:
  assumes wf: "wf_label p" and c: "c \<in> set ASPECTS_LIST"
  shows "py_in_str c p = (c \<in> set (aspects_for_token p))"
proof (cases "p = str ''O''")
  case True
  then have "aspects_for_token p = []" by (simp add: aspects_for_token_def str_def)
  with True vocab_not_in_O[OF c] show ?thesis by simp
next
  case False
  with wf have v: "set (split_on 124 p) \<subseteq> set ASPECTS_LIST"
    by (auto simp: wf_label_def list_all_iff)
  then have "str ''O'' \<notin> set (split_on 124 p)" using vocab_not_in_O by blast
  then have a: "aspects_for_token p = split_on 124 p" by (simp add: aspects_for_token_def)
  show ?thesis
  proof
    assume "py_in_str c p"
    then have "sublist c p" by (simp add: py_in_str_sublist)
    from sublist_split_on[OF this vocab_no_pipe[OF c]] obtain w where
      w: "w \<in> set (split_on 124 p)" "sublist c w" by blast
    with v c have "c = w" by (intro vocab_substring) (auto simp: py_in_str_sublist)
    with w a show "c \<in> set (aspects_for_token p)" by simp
  next
    assume "c \<in> set (aspects_for_token p)"
    with a show "py_in_str c p" by (simp add: py_in_str_sublist field_sublist)
  qed
qed

section \<open>Facts about the grouping loop\<close>

lemma map_of_setitem: "map_of (setitem d k v) = (map_of d)(k \<mapsto> v)"
  by (induction d k v rule: setitem.induct) auto

lemma mentions_of_setitem:
  "mentions_of (setitem d k v) c = (if c = k then v else mentions_of d c)"
  by (simp add: mentions_of_def map_of_setitem)

lemma add_token_cases:
  "add_token d prev_label tok a =
     (if py_in_str a prev_label
        then (if mentions_of d a = [] then Inl IndexError
              else Inr (setitem d a (butlast (mentions_of d a) @ [last (mentions_of d a) @ [tok]])))
      else Inr (setitem d a (mentions_of d a @ [[tok]])))"
  by (simp add: add_token_def Let_def)

lemma add_tokens_law:
  assumes "distinct as" "\<forall>a \<in> set as. py_in_str a prev_label \<longrightarrow> mentions_of d a \<noteq> []"
  shows "\<exists>d'. add_tokens d prev_label tok as = Inr d'
     \<and> (\<forall>c. mentions_of d' c =
          (if c \<in> set as
             then (if py_in_str c prev_label
                     then butlast (mentions_of d c) @ [last (mentions_of d c) @ [tok]]
                   else mentions_of d c @ [[tok]])
           else mentions_of d c))"
  using assms
proof (induction as arbitrary: d)
  case Nil
  then show ?case by simp
next
  case (Cons a as)
  let ?v = "if py_in_str a prev_label
              then butlast (mentions_of d a) @ [last (mentions_of d a) @ [tok]]
            else mentions_of d a @ [[tok]]"
  have st: "add_token d prev_label tok a = Inr (setitem d a ?v)"
    using Cons.prems(2) by (simp add: add_token_cases)
  have a: "a \<notin> set as" "distinct as" using Cons.prems(1) by simp_all
  have "\<forall>b \<in> set as. py_in_str b prev_label \<longrightarrow> mentions_of (setitem d a ?v) b \<noteq> []"
    using Cons.prems(2) a(1) by (auto simp: mentions_of_setitem)
  from Cons.IH[OF a(2) this] obtain d' where
    d': "add_tokens (setitem d a ?v) prev_label tok as = Inr d'"
      "\<And>c. mentions_of d' c =
          (if c \<in> set as
             then (if py_in_str c prev_label
                     then butlast (mentions_of (setitem d a ?v) c) @ [last (mentions_of (setitem d a ?v) c) @ [tok]]
                   else mentions_of (setitem d a ?v) c @ [[tok]])
           else mentions_of (setitem d a ?v) c)"
    by blast
  have "add_tokens d prev_label tok (a # as) = Inr d'"
    using st d'(1) by simp
  moreover have "mentions_of d' c =
          (if c \<in> set (a # as)
             then (if py_in_str c prev_label
                     then butlast (mentions_of d c) @ [last (mentions_of d c) @ [tok]]
                   else mentions_of d c @ [[tok]])
           else mentions_of d c)" for c
    using d'(2)[of c] a(1) by (auto simp: mentions_of_setitem)
  ultimately show ?case by blast
qed

lemma group_loop_snoc:
  "group_loop d p (xs @ [(tok, l)]) =
     (case group_loop d p xs of
        Inl e \<Rightarrow> Inl e
      | Inr d' \<Rightarrow> add_tokens d' (last (p # map snd xs)) tok (aspects_for_token l))"
  by (induction d p xs rule: group_loop.induct) (auto split: sum.splits)

lemma faithful_from_snoc:
  "faithful_from p ps (xs @ [(tok, l)]) =
     (faithful_from p ps xs \<and> distinct (aspects_for_token l)
      \<and> list_all (\<lambda>c. py_in_str c (last (p # map snd xs))
            = (c \<in> set (last (ps # map (\<lambda>(t, l). aspects_for_token l) xs))))
          (aspects_for_token l))"
  by (induction p ps xs rule: faithful_from.induct) auto

lemma faithful_from_append: "faithful_from p ps (xs @ ys) \<Longrightarrow> faithful_from p ps xs"
  by (induction p ps xs rule: faithful_from.induct) auto

section \<open>Facts about maximal runs\<close>

lemma runs_nonempty: "xs \<noteq> [] \<Longrightarrow> P (last xs) \<Longrightarrow> runs P xs \<noteq> []"
  by (induction P xs rule: runs.induct) (auto split: if_splits)

lemma runs_snoc:
  "runs P (xs @ [z]) =
     (if P z
        then (if xs \<noteq> [] \<and> P (last xs)
                then butlast (runs P xs) @ [last (runs P xs) @ [z]]
              else runs P xs @ [[z]])
      else runs P xs)"
proof (induction P xs rule: runs.induct)
  case (1 P)
  then show ?case by simp
next
  case (2 P y ys)
  show ?case
  proof (cases "P y")
    case False
    with 2(2) show ?thesis by (cases "ys = []") auto
  next
    case Py: True
    show ?thesis
    proof (cases "\<forall>e \<in> set ys. P e")
      case True
      then have t1: "takeWhile P (ys @ [z]) = ys @ takeWhile P [z]"
        and t2: "dropWhile P (ys @ [z]) = dropWhile P [z]"
        and t3: "takeWhile P ys = ys" and t4: "dropWhile P ys = []"
        by (simp_all add: takeWhile_append2 dropWhile_append2)
      have A: "runs P (y # ys) = [y # ys]"
        unfolding runs.simps(2)[of P y ys] t3 t4 using Py by simp
      have B: "runs P ((y # ys) @ [z]) = (if P z then [y # ys @ [z]] else [y # ys])"
        unfolding append_Cons runs.simps(2)[of P y "ys @ [z]"] t1 t2 using Py by simp
      have "P (last (y # ys))" using True Py by simp
      then show ?thesis unfolding A B by simp
    next
      case False
      then obtain e where e: "e \<in> set ys" "\<not> P e" by blast
      then have tw: "takeWhile P (ys @ [z]) = takeWhile P ys"
        and dw: "dropWhile P (ys @ [z]) = dropWhile P ys @ [z]"
        by (simp_all add: takeWhile_append1 dropWhile_append1)
      have ne: "dropWhile P ys \<noteq> []" using e by (auto simp: dropWhile_eq_Nil_conv)
      have "ys = takeWhile P ys @ dropWhile P ys" by simp
      then have l: "last ys = last (dropWhile P ys)" using ne by (metis last_appendR)
      have ys: "ys \<noteq> []" using e by auto
      have rn: "P (last (dropWhile P ys)) \<Longrightarrow> runs P (dropWhile P ys) \<noteq> []"
        using runs_nonempty[OF ne] by simp
      have A: "runs P (y # ys) = (y # takeWhile P ys) # runs P (dropWhile P ys)"
        using Py by simp
      have B: "runs P ((y # ys) @ [z]) = (y # takeWhile P ys) # runs P (dropWhile P ys @ [z])"
        unfolding append_Cons runs.simps(2)[of P y "ys @ [z]"] tw dw using Py by simp
      show ?thesis
        unfolding A B 2(1)[OF Py] using ne ys l rn by auto
    qed
  qed
qed

lemma last_prev_set:
  "last (ps # map (\<lambda>(t, l). aspects_for_token l) xs) =
     (if xs = [] then ps else aspects_for_token (snd (last xs)))"
  by (simp add: last_map case_prod_beta)

lemma spans_spec_snoc:
  "spans_spec c (xs @ [(tok, l)]) =
     (if c \<in> set (aspects_for_token l)
        then (if xs \<noteq> [] \<and> c \<in> set (aspects_for_token (snd (last xs)))
                then butlast (spans_spec c xs) @ [last (spans_spec c xs) @ [tok]]
              else spans_spec c xs @ [[tok]])
      else spans_spec c xs)"
proof -
  let ?P = "\<lambda>(tok, l). c \<in> set (aspects_for_token l)"
  have "runs ?P xs \<noteq> []" if "xs \<noteq> []" "c \<in> set (aspects_for_token (snd (last xs)))"
    using that runs_nonempty[of xs ?P] by (simp add: case_prod_beta)
  then show ?thesis
    by (simp add: spans_spec_def runs_snoc map_butlast last_map case_prod_beta)
qed

lemma spans_spec_nonempty:
  "xs \<noteq> [] \<Longrightarrow> c \<in> set (aspects_for_token (snd (last xs))) \<Longrightarrow> spans_spec c xs \<noteq> []"
  using runs_nonempty[of xs "\<lambda>(tok, l). c \<in> set (aspects_for_token l)"]
  by (simp add: spans_spec_def case_prod_beta)

lemma group_mentions_snoc:
  "group_mentions (xs @ [(tok, l)]) =
     (case group_mentions xs of
        Inl e \<Rightarrow> Inl e
      | Inr d \<Rightarrow> add_tokens d (last ([] # map snd xs)) tok (aspects_for_token l))"
  by (simp add: group_mentions_def group_loop_snoc)

lemma group_step:
  assumes g: "group_mentions xs = Inr d"
    and sp: "\<forall>c. mentions_of d c = spans_spec c xs"
    and f: "faithful (xs @ [(tok, l)])"
  shows "\<exists>d'. group_mentions (xs @ [(tok, l)]) = Inr d'
     \<and> (\<forall>c. mentions_of d' c =
          (if c \<in> set (aspects_for_token l)
             then (if xs \<noteq> [] \<and> c \<in> set (aspects_for_token (snd (last xs)))
                     then butlast (mentions_of d c) @ [last (mentions_of d c) @ [tok]]
                   else mentions_of d c @ [[tok]])
           else mentions_of d c))
     \<and> (\<forall>c. mentions_of d' c = spans_spec c (xs @ [(tok, l)]))"
proof -
  let ?prev = "last ([] # map snd xs)"
  from f have dist: "distinct (aspects_for_token l)"
    and agree: "\<forall>c \<in> set (aspects_for_token l).
       py_in_str c ?prev = (xs \<noteq> [] \<and> c \<in> set (aspects_for_token (snd (last xs))))"
    by (auto simp: faithful_def faithful_from_snoc last_map case_prod_beta list_all_iff)
  have "\<forall>a \<in> set (aspects_for_token l). py_in_str a ?prev \<longrightarrow> mentions_of d a \<noteq> []"
    using agree sp spans_spec_nonempty by auto
  from add_tokens_law[OF dist this, of tok] obtain d' where
    d': "add_tokens d ?prev tok (aspects_for_token l) = Inr d'"
      "\<And>c. mentions_of d' c =
          (if c \<in> set (aspects_for_token l)
             then (if py_in_str c ?prev
                     then butlast (mentions_of d c) @ [last (mentions_of d c) @ [tok]]
                   else mentions_of d c @ [[tok]])
           else mentions_of d c)"
    by blast
  have 1: "group_mentions (xs @ [(tok, l)]) = Inr d'"
    using g d'(1) by (simp add: group_mentions_snoc)
  have 2: "mentions_of d' c =
          (if c \<in> set (aspects_for_token l)
             then (if xs \<noteq> [] \<and> c \<in> set (aspects_for_token (snd (last xs)))
                     then butlast (mentions_of d c) @ [last (mentions_of d c) @ [tok]]
                   else mentions_of d c @ [[tok]])
           else mentions_of d c)" for c
    using d'(2)[of c] agree by auto
  have 3: "mentions_of d' c = spans_spec c (xs @ [(tok, l)])" for c
    unfolding 2 spans_spec_snoc using sp by simp
  from 1 2 3 show ?thesis by blast
qed

lemma faithful_prefix: "faithful (xs @ ys) \<Longrightarrow> faithful xs"
  by (simp add: faithful_def faithful_from_append)

lemma group_mentions_spans:
  "faithful xs \<Longrightarrow> \<exists>d. group_mentions xs = Inr d \<and> (\<forall>c. mentions_of d c = spans_spec c xs)"
proof (induction xs rule: rev_induct)
  case Nil
  then show ?case by (simp add: group_mentions_def mentions_of_def spans_spec_def)
next
  case (snoc x xs)
  obtain tok l where x: "x = (tok, l)" by force
  from snoc.prems have "faithful xs" by (rule faithful_prefix)
  from snoc.IH[OF this] obtain d where
    d: "group_mentions xs = Inr d" "\<forall>c. mentions_of d c = spans_spec c xs" by blast
  from group_step[OF d] snoc.prems x show ?case by blast
qed

lemma wf_faithful_from:
  "list_all (\<lambda>(tok, l). wf_label l) xs \<Longrightarrow>
   (p = [] \<and> ps = []) \<or> (wf_label p \<and> ps = aspects_for_token p) \<Longrightarrow>
   faithful_from p ps xs"
proof (induction p ps xs rule: faithful_from.induct)
  case (1 p ps)
  then show ?case by simp
next
  case (2 p ps tok l rest)
  from 2(2) have wf: "wf_label l" and rest: "list_all (\<lambda>(tok, l). wf_label l) rest" by simp_all
  note a = wf_label_aspects[OF wf]
  have "py_in_str c p = (c \<in> set ps)" if c: "c \<in> set (aspects_for_token l)" for c
  proof -
    from c a have v: "c \<in> set ASPECTS_LIST" by blast
    from 2(3) show ?thesis
    proof
      assume "p = [] \<and> ps = []"
      with vocab_not_in_O[OF v] show ?thesis by simp
    next
      assume "wf_label p \<and> ps = aspects_for_token p"
      with wf_label_substring[OF _ v] show ?thesis by simp
    qed
  qed
  moreover have "faithful_from l (aspects_for_token l) rest"
    using 2(1)[OF rest] wf by simp
  ultimately show ?case using a by (simp add: list_all_iff)
qed

lemma wf_faithful: "list_all (\<lambda>(tok, l). wf_label l) xs \<Longrightarrow> faithful xs"
  unfolding faithful_def by (rule wf_faithful_from) simp_all

lemma filter_takeWhile_dropWhile:
  "takeWhile P xs @ filter P (dropWhile P xs) = filter P xs"
  by (induction xs) auto

lemma concat_runs: "concat (runs P xs) = filter P xs"
proof (induction P xs rule: runs.induct)
  case (1 P)
  then show ?case by simp
next
  case (2 P x xs)
  show ?case
  proof (cases "P x")
    case True
    from 2(1)[OF True] True
    have "concat (runs P (x # xs)) = x # (takeWhile P xs @ filter P (dropWhile P xs))"
      by simp
    also have "\<dots> = x # filter P xs"
      by (simp only: filter_takeWhile_dropWhile)
    finally show ?thesis using True by simp
  next
    case False
    with 2(2) show ?thesis by simp
  qed
qed

lemma last_take_nth: "0 < i \<Longrightarrow> i \<le> length xs \<Longrightarrow> last (take i xs) = xs ! (i - 1)"
proof -
  assume i: "0 < i" "i \<le> length xs"
  then have "take i xs \<noteq> []" by auto
  then have "last (take i xs) = take i xs ! (length (take i xs) - 1)" by (rule last_conv_nth)
  also have "\<dots> = xs ! (i - 1)" using i by (simp add: min_def)
  finally show ?thesis .
qed

lemma group_index_step:
  assumes f: "faithful result" and i: "i < length result"
  shows "\<exists>d d'. group_mentions (take i result) = Inr d
     \<and> group_mentions (take (Suc i) result) = Inr d'
     \<and> (\<forall>c. mentions_of d' c =
          (if c \<in> set (label_set result i)
             then (if c \<in> set (prev_label_set result i)
                     then butlast (mentions_of d c) @ [last (mentions_of d c) @ [fst (result ! i)]]
                   else mentions_of d c @ [[fst (result ! i)]])
           else mentions_of d c))"
proof -
  have t: "take (Suc i) result = take i result @ [(fst (result ! i), snd (result ! i))]"
    using i by (simp add: take_Suc_conv_app_nth)
  have f1: "faithful (take (Suc i) result)"
    using faithful_prefix[of "take (Suc i) result" "drop (Suc i) result"] f by simp
  then have f0: "faithful (take i result)" unfolding t by (rule faithful_prefix)
  from group_mentions_spans[OF f0] obtain d where
    d: "group_mentions (take i result) = Inr d"
       "\<forall>c. mentions_of d c = spans_spec c (take i result)" by blast
  have p: "(take i result \<noteq> [] \<and> c \<in> set (aspects_for_token (snd (last (take i result)))))
        = (c \<in> set (prev_label_set result i))" for c
  proof (cases "i = 0")
    case True
    then show ?thesis by (simp add: prev_label_set_def)
  next
    case False
    then have "last (take i result) = result ! (i - 1)" "take i result \<noteq> []"
      using i by (auto simp: last_take_nth)
    with False show ?thesis by (simp add: prev_label_set_def label_set_def)
  qed
  from group_step[OF d f1[unfolded t]] obtain d' where
    d': "group_mentions (take i result @ [(fst (result ! i), snd (result ! i))]) = Inr d'"
      "\<forall>c. mentions_of d' c =
          (if c \<in> set (aspects_for_token (snd (result ! i)))
             then (if take i result \<noteq> [] \<and> c \<in> set (aspects_for_token (snd (last (take i result))))
                     then butlast (mentions_of d c) @ [last (mentions_of d c) @ [fst (result ! i)]]
                   else mentions_of d c @ [[fst (result ! i)]])
           else mentions_of d c)"
    by blast
  have 1: "group_mentions (take (Suc i) result) = Inr d'"
    using d'(1) by (simp only: t)
  have 2: "\<forall>c. mentions_of d' c =
          (if c \<in> set (label_set result i)
             then (if c \<in> set (prev_label_set result i)
                     then butlast (mentions_of d c) @ [last (mentions_of d c) @ [fst (result ! i)]]
                   else mentions_of d c @ [[fst (result ! i)]])
           else mentions_of d c)"
    using d'(2) unfolding p label_set_def by assumption
  show ?thesis
    by (intro exI[of _ d] exI[of _ d'] conjI d(1) 1 2)
qed

lemma group_index_open:
  assumes f: "faithful result" and i: "i < length result"
    and g: "group_mentions (take i result) = Inr d"
    and c: "c \<in> set (prev_label_set result i)"
  shows "mentions_of d c \<noteq> [] \<and> last (mentions_of d c) \<noteq> []
      \<and> last (last (mentions_of d c)) = fst (result ! (i - 1))"
proof -
  from c have i0: "i \<noteq> 0" and cl: "c \<in> set (label_set result (i - 1))"
    by (auto simp: prev_label_set_def split: if_splits)
  then have j: "i - 1 < length result" "Suc (i - 1) = i" using i by simp_all
  from group_index_step[OF f j(1)] obtain d0 d1 where
    a: "group_mentions (take (i - 1) result) = Inr d0"
      "group_mentions (take (Suc (i - 1)) result) = Inr d1"
      "\<forall>c. mentions_of d1 c =
            (if c \<in> set (label_set result (i - 1))
               then (if c \<in> set (prev_label_set result (i - 1))
                       then butlast (mentions_of d0 c) @ [last (mentions_of d0 c) @ [fst (result ! (i - 1))]]
                     else mentions_of d0 c @ [[fst (result ! (i - 1))]])
             else mentions_of d0 c)"
    by blast
  from a(2) g have "d1 = d" unfolding j(2) by simp
  with a(3) have "mentions_of d c =
            (if c \<in> set (label_set result (i - 1))
               then (if c \<in> set (prev_label_set result (i - 1))
                       then butlast (mentions_of d0 c) @ [last (mentions_of d0 c) @ [fst (result ! (i - 1))]]
                     else mentions_of d0 c @ [[fst (result ! (i - 1))]])
             else mentions_of d0 c)"
    by blast
  with cl have "mentions_of d c = butlast (mentions_of d0 c) @ [last (mentions_of d0 c) @ [fst (result ! (i - 1))]]
      \<or> mentions_of d c = mentions_of d0 c @ [[fst (result ! (i - 1))]]"
    by (simp split: if_splits)
  then show ?thesis by auto
qed

lemma scenario_groups:
  "group_mentions
        [([1052, 1077, 1090, 1086, 1076], str ''Method''), (str '','', str ''O''),
         ([1055, 1086, 1076, 1093, 1086, 1076], str ''Method|Task'')]
      = Inr [(str ''Method'', [[[1052, 1077, 1090, 1086, 1076]], [[1055, 1086, 1076, 1093, 1086, 1076]]]),
             (str ''Task'', [[[1055, 1086, 1076, 1093, 1086, 1076]]])]"
  by code_simp

section \<open>Claims about the grouping of \<open>extract_aspects\<close>\<close>

text \<open>
  C1, as amended. On a labeled token sequence whose labels are labels of the data model (the
  sentinel \<open>O\<close>, or distinct categories of the vocabulary joined by pipes) the loop never
  fails, and for every token \<open>i\<close> and category \<open>c\<close>: if \<open>c\<close> is in the label set of token \<open>i\<close>
  and in that of token \<open>i - 1\<close>, the token is appended to the last span of \<open>c\<close>, which exists and
  ends with token \<open>i - 1\<close>; if \<open>c\<close> is in the label set of token \<open>i\<close> only, a new span of \<open>c\<close> is
  started with the token; otherwise the spans of \<open>c\<close> stay as they are. The label set before
  the first token is empty. The scenario of the specification decodes to two spans of
  \<open>Method\<close> and one of \<open>Task\<close>.
\<close>

theorem continuation_law:
  "(list_all (\<lambda>(tok, l). wf_label l) result \<and> i < length result \<longrightarrow>
      (\<exists>d d'. group_mentions (take i result) = Inr d
         \<and> group_mentions (take (Suc i) result) = Inr d'
         \<and> (\<forall>c. mentions_of d' c =
              (if c \<in> set (label_set result i)
                 then (if c \<in> set (prev_label_set result i)
                         then butlast (mentions_of d c) @ [last (mentions_of d c) @ [fst (result ! i)]]
                       else mentions_of d c @ [[fst (result ! i)]])
               else mentions_of d c))
         \<and> (\<forall>c \<in> set (prev_label_set result i).
              mentions_of d c \<noteq> [] \<and> last (mentions_of d c) \<noteq> []
              \<and> last (last (mentions_of d c)) = fst (result ! (i - 1)))))
   \<and> group_mentions
        [([1052, 1077, 1090, 1086, 1076], str ''Method''), (str '','', str ''O''),
         ([1055, 1086, 1076, 1093, 1086, 1076], str ''Method|Task'')]
      = Inr [(str ''Method'', [[[1052, 1077, 1090, 1086, 1076]], [[1055, 1086, 1076, 1093, 1086, 1076]]]),
             (str ''Task'', [[[1055, 1086, 1076, 1093, 1086, 1076]]])]"
proof (intro conjI impI)
  assume h: "list_all (\<lambda>(tok, l). wf_label l) result \<and> i < length result"
  then have f: "faithful result" and i: "i < length result" by (simp_all add: wf_faithful)
  from group_index_step[OF f i] obtain d d' where
    s: "group_mentions (take i result) = Inr d" "group_mentions (take (Suc i) result) = Inr d'"
      "\<forall>c. mentions_of d' c =
              (if c \<in> set (label_set result i)
                 then (if c \<in> set (prev_label_set result i)
                         then butlast (mentions_of d c) @ [last (mentions_of d c) @ [fst (result ! i)]]
                       else mentions_of d c @ [[fst (result ! i)]])
               else mentions_of d c)"
    by blast
  have prev: "\<forall>c \<in> set (prev_label_set result i).
      mentions_of d c \<noteq> [] \<and> last (mentions_of d c) \<noteq> []
      \<and> last (last (mentions_of d c)) = fst (result ! (i - 1))"
    using group_index_open[OF f i s(1)] by blast
  show "\<exists>d d'. group_mentions (take i result) = Inr d
         \<and> group_mentions (take (Suc i) result) = Inr d'
         \<and> (\<forall>c. mentions_of d' c =
              (if c \<in> set (label_set result i)
                 then (if c \<in> set (prev_label_set result i)
                         then butlast (mentions_of d c) @ [last (mentions_of d c) @ [fst (result ! i)]]
                       else mentions_of d c @ [[fst (result ! i)]])
               else mentions_of d c))
         \<and> (\<forall>c \<in> set (prev_label_set result i).
              mentions_of d c \<noteq> [] \<and> last (mentions_of d c) \<noteq> []
              \<and> last (last (mentions_of d c)) = fst (result ! (i - 1)))"
    by (intro exI[of _ d] exI[of _ d'] conjI s prev)
next
  show "group_mentions
        [([1052, 1077, 1090, 1086, 1076], str ''Method''), (str '','', str ''O''),
         ([1055, 1086, 1076, 1093, 1086, 1076], str ''Method|Task'')]
      = Inr [(str ''Method'', [[[1052, 1077, 1090, 1086, 1076]], [[1055, 1086, 1076, 1093, 1086, 1076]]]),
             (str ''Task'', [[[1055, 1086, 1076, 1093, 1086, 1076]]])]"
    by (rule scenario_groups)
qed

theorem continuation_law_witness:
  "list_all (\<lambda>(tok, l). wf_label l)
      [([1052, 1077, 1090, 1086, 1076], str ''Method''), (str '','', str ''O''),
       ([1055, 1086, 1076, 1093, 1086, 1076], str ''Method|Task'')]
   \<and> 2 < length
      [([1052, 1077, 1090, 1086, 1076], str ''Method''), (str '','', str ''O''),
       ([1055, 1086, 1076, 1093, 1086, 1076], str ''Method|Task'')]
   \<and> (\<exists>d d'. group_mentions (take 2
          [([1052, 1077, 1090, 1086, 1076], str ''Method''), (str '','', str ''O''),
           ([1055, 1086, 1076, 1093, 1086, 1076], str ''Method|Task'')]) = Inr d
         \<and> group_mentions
          [([1052, 1077, 1090, 1086, 1076], str ''Method''), (str '','', str ''O''),
           ([1055, 1086, 1076, 1093, 1086, 1076], str ''Method|Task'')] = Inr d'
         \<and> mentions_of d' (str ''Method'')
             = mentions_of d (str ''Method'') @ [[[1055, 1086, 1076, 1093, 1086, 1076]]]
         \<and> mentions_of d' (str ''Task'')
             = mentions_of d (str ''Task'') @ [[[1055, 1086, 1076, 1093, 1086, 1076]]])"
proof -
  let ?S = "[([1052, 1077, 1090, 1086, 1076], str ''Method''), (str '','', str ''O''),
       ([1055, 1086, 1076, 1093, 1086, 1076], str ''Method|Task'')]"
  have h: "list_all (\<lambda>(tok, l). wf_label l) ?S \<and> 2 < length ?S"
    by code_simp
  have ls: "label_set ?S 2 = [str ''Method'', str ''Task'']" "prev_label_set ?S 2 = []"
    "fst (?S ! 2) = [1055, 1086, 1076, 1093, 1086, 1076]" "take (Suc 2) ?S = ?S"
    by code_simp+
  from continuation_law[of ?S 2, THEN conjunct1, rule_format, OF h] obtain d d' where
    s: "group_mentions (take 2 ?S) = Inr d" "group_mentions (take (Suc 2) ?S) = Inr d'"
      "\<forall>c. mentions_of d' c =
              (if c \<in> set (label_set ?S 2)
                 then (if c \<in> set (prev_label_set ?S 2)
                         then butlast (mentions_of d c) @ [last (mentions_of d c) @ [fst (?S ! 2)]]
                       else mentions_of d c @ [[fst (?S ! 2)]])
               else mentions_of d c)"
    by blast
  from s(2) have 2: "group_mentions ?S = Inr d'" by (simp only: ls)
  from s(3) have "mentions_of d' (str ''Method'') =
      mentions_of d (str ''Method'') @ [[[1055, 1086, 1076, 1093, 1086, 1076]]]"
    "mentions_of d' (str ''Task'') =
      mentions_of d (str ''Task'') @ [[[1055, 1086, 1076, 1093, 1086, 1076]]]"
    unfolding ls by simp_all
  with h s(1) 2 show ?thesis by blast
qed

lemma continuation_cex_facts:
  "label_set [(str ''a'', str ''Method''), (str ''x'', str ''Method|O''), (str ''b'', str ''Method'')] 2
      = [str ''Method'']
   \<and> prev_label_set [(str ''a'', str ''Method''), (str ''x'', str ''Method|O''), (str ''b'', str ''Method'')] 2
      = []
   \<and> group_mentions (take 2 [(str ''a'', str ''Method''), (str ''x'', str ''Method|O''), (str ''b'', str ''Method'')])
      = Inr [(str ''Method'', [[str ''a'']])]
   \<and> group_mentions (take (Suc 2) [(str ''a'', str ''Method''), (str ''x'', str ''Method|O''), (str ''b'', str ''Method'')])
      = Inr [(str ''Method'', [[str ''a'', str ''b'']])]
   \<and> mentions_of [(str ''Method'', [[str ''a'', str ''b'']])] (str ''Method'')
      \<noteq> mentions_of [(str ''Method'', [[str ''a'']])] (str ''Method'')
           @ [[fst ([(str ''a'', str ''Method''), (str ''x'', str ''Method|O''), (str ''b'', str ''Method'')] ! 2)]]"
  by code_simp

theorem continuation_law_counterexample:
  "group_mentions [(str ''a'', str ''Method''), (str ''x'', str ''Method|O'')]
      = Inr [(str ''Method'', [[str ''a'']])]
   \<and> group_mentions [(str ''a'', str ''Method''), (str ''x'', str ''Method|O''), (str ''b'', str ''Method'')]
      = Inr [(str ''Method'', [[str ''a'', str ''b'']])]
   \<and> str ''Method'' \<notin> set (prev_label_set
        [(str ''a'', str ''Method''), (str ''x'', str ''Method|O''), (str ''b'', str ''Method'')] 2)
   \<and> \<not> (\<exists>d d'.
        group_mentions (take 2
          [(str ''a'', str ''Method''), (str ''x'', str ''Method|O''), (str ''b'', str ''Method'')]) = Inr d
        \<and> group_mentions (take (Suc 2)
          [(str ''a'', str ''Method''), (str ''x'', str ''Method|O''), (str ''b'', str ''Method'')]) = Inr d'
        \<and> (\<forall>c. mentions_of d' c =
              (if c \<in> set (label_set
                    [(str ''a'', str ''Method''), (str ''x'', str ''Method|O''), (str ''b'', str ''Method'')] 2)
                 then (if c \<in> set (prev_label_set
                          [(str ''a'', str ''Method''), (str ''x'', str ''Method|O''), (str ''b'', str ''Method'')] 2)
                         then butlast (mentions_of d c) @ [last (mentions_of d c) @
                            [fst ([(str ''a'', str ''Method''), (str ''x'', str ''Method|O''), (str ''b'', str ''Method'')] ! 2)]]
                       else mentions_of d c @
                            [[fst ([(str ''a'', str ''Method''), (str ''x'', str ''Method|O''), (str ''b'', str ''Method'')] ! 2)]])
               else mentions_of d c)))"
proof (intro conjI notI)
  let ?X = "[(str ''a'', str ''Method''), (str ''x'', str ''Method|O''), (str ''b'', str ''Method'')]"
  show "group_mentions [(str ''a'', str ''Method''), (str ''x'', str ''Method|O'')]
      = Inr [(str ''Method'', [[str ''a'']])]"
    by code_simp
  show "group_mentions ?X = Inr [(str ''Method'', [[str ''a'', str ''b'']])]"
    by code_simp
  assume "str ''Method'' \<in> set (prev_label_set ?X 2)"
  then show False using continuation_cex_facts by simp
next
  let ?X = "[(str ''a'', str ''Method''), (str ''x'', str ''Method|O''), (str ''b'', str ''Method'')]"
  assume "\<exists>d d'. group_mentions (take 2 ?X) = Inr d
        \<and> group_mentions (take (Suc 2) ?X) = Inr d'
        \<and> (\<forall>c. mentions_of d' c =
              (if c \<in> set (label_set ?X 2)
                 then (if c \<in> set (prev_label_set ?X 2)
                         then butlast (mentions_of d c) @ [last (mentions_of d c) @ [fst (?X ! 2)]]
                       else mentions_of d c @ [[fst (?X ! 2)]])
               else mentions_of d c))"
  then obtain d d' where
    a: "group_mentions (take 2 ?X) = Inr d" "group_mentions (take (Suc 2) ?X) = Inr d'"
      "\<forall>c. mentions_of d' c =
              (if c \<in> set (label_set ?X 2)
                 then (if c \<in> set (prev_label_set ?X 2)
                         then butlast (mentions_of d c) @ [last (mentions_of d c) @ [fst (?X ! 2)]]
                       else mentions_of d c @ [[fst (?X ! 2)]])
               else mentions_of d c)"
    by blast
  note f = continuation_cex_facts
  from a(1) f have d: "d = [(str ''Method'', [[str ''a'']])]" by simp
  from a(2) f have d': "d' = [(str ''Method'', [[str ''a'', str ''b'']])]" by simp
  from a(3) have "mentions_of d' (str ''Method'') =
              (if str ''Method'' \<in> set (label_set ?X 2)
                 then (if str ''Method'' \<in> set (prev_label_set ?X 2)
                         then butlast (mentions_of d (str ''Method'')) @ [last (mentions_of d (str ''Method'')) @ [fst (?X ! 2)]]
                       else mentions_of d (str ''Method'') @ [[fst (?X ! 2)]])
               else mentions_of d (str ''Method''))"
    by blast
  then have "mentions_of d' (str ''Method'') = mentions_of d (str ''Method'') @ [[fst (?X ! 2)]]"
    using f by simp
  with f show False unfolding d d' by blast
qed

text \<open>
  C2, as amended. Category identifiers are not checked against the vocabulary. On every
  labeled token sequence, whatever its identifiers, in which the entries of each label are
  distinct and an entry of a label occurs in the previous label string exactly when it is in
  the previous label set, the loop does not fail, and under every key the spans are the
  maximal runs of consecutive tokens whose label set holds the key; joined, they are the
  tokens that carry the key, in text order.
\<close>

theorem unknown_categories_grouped:
  assumes "faithful result"
  shows "\<exists>d. group_mentions result = Inr d
     \<and> (\<forall>c. mentions_of d c = spans_spec c result
            \<and> concat (mentions_of d c)
                = map fst (filter (\<lambda>(tok, l). c \<in> set (aspects_for_token l)) result))"
proof -
  from group_mentions_spans[OF assms] obtain d where
    d: "group_mentions result = Inr d" "\<forall>c. mentions_of d c = spans_spec c result" by blast
  have "concat (spans_spec c result)
      = map fst (filter (\<lambda>(tok, l). c \<in> set (aspects_for_token l)) result)" for c
    by (simp add: spans_spec_def map_concat[symmetric] concat_runs)
  with d show ?thesis by simp
qed

theorem unknown_categories_grouped_witness:
  "faithful [(str ''a'', str ''Foo|Method''), (str ''x'', str ''Foo''), (str ''b'', str ''Method'')]
   \<and> group_mentions [(str ''a'', str ''Foo|Method''), (str ''x'', str ''Foo''), (str ''b'', str ''Method'')]
       = Inr [(str ''Foo'', [[str ''a'', str ''x'']]), (str ''Method'', [[str ''a''], [str ''b'']])]
   \<and> (\<exists>d. group_mentions [(str ''a'', str ''Foo|Method''), (str ''x'', str ''Foo''), (str ''b'', str ''Method'')]
          = Inr d
        \<and> mentions_of d (str ''Foo'')
          = spans_spec (str ''Foo'') [(str ''a'', str ''Foo|Method''), (str ''x'', str ''Foo''), (str ''b'', str ''Method'')])"
proof -
  let ?X = "[(str ''a'', str ''Foo|Method''), (str ''x'', str ''Foo''), (str ''b'', str ''Method'')]"
  have f: "faithful ?X" by code_simp
  have g: "group_mentions ?X
       = Inr [(str ''Foo'', [[str ''a'', str ''x'']]), (str ''Method'', [[str ''a''], [str ''b'']])]"
    by code_simp
  from unknown_categories_grouped[OF f] have
    "\<exists>d. group_mentions ?X = Inr d \<and> mentions_of d (str ''Foo'') = spans_spec (str ''Foo'') ?X"
    by blast
  with f g show ?thesis by blast
qed

theorem unknown_categories_counterexample:
  "group_mentions [(str ''a'', str ''Task''), (str ''b'', str ''Tas'')] = Inl IndexError
   \<and> spans_spec (str ''Tas'') [(str ''a'', str ''Task''), (str ''b'', str ''Tas'')] = [[str ''b'']]
   \<and> extract_aspects \<lparr>do_normalize = False,
            syntax_parser = (\<lambda>ws. \<lparr>doc_tokens = [], doc_root = \<lparr>tok_i = 0, tok_text = [], tok_pos = [],
               tok_dep = [], tok_head = 0, morph_Number = [], morph_Gender = []\<rparr>\<rparr>),
            morph = (\<lambda>w. []),
            predictor = (\<lambda>t. [(str ''a'', str ''Task''), (str ''b'', str ''Tas'')]),
            str_upper = (\<lambda>s. s)\<rparr> (Tokenized [str ''a'', str ''b''])
       = Inl IndexError"
proof (intro conjI)
  show g: "group_mentions [(str ''a'', str ''Task''), (str ''b'', str ''Tas'')] = Inl IndexError"
    by code_simp
  show "spans_spec (str ''Tas'') [(str ''a'', str ''Task''), (str ''b'', str ''Tas'')] = [[str ''b'']]"
    by code_simp
  show "extract_aspects \<lparr>do_normalize = False,
            syntax_parser = (\<lambda>ws. \<lparr>doc_tokens = [], doc_root = \<lparr>tok_i = 0, tok_text = [], tok_pos = [],
               tok_dep = [], tok_head = 0, morph_Number = [], morph_Gender = []\<rparr>\<rparr>),
            morph = (\<lambda>w. []),
            predictor = (\<lambda>t. [(str ''a'', str ''Task''), (str ''b'', str ''Tas'')]),
            str_upper = (\<lambda>s. s)\<rparr> (Tokenized [str ''a'', str ''b''])
       = Inl IndexError"
    by (simp add: extract_aspects_def g)
qed

text \<open>
  C10. A token whose label, split at the pipe, has the entry \<open>O\<close> is assigned to no category,
  whatever other entries the label has: its list of aspects is empty, and the loop leaves the
  dictionary as it was before the token.
\<close>

theorem sentinel_discards_all_categories:
  assumes "str ''O'' \<in> set (split_on 124 l)"
  shows "aspects_for_token l = []
     \<and> group_loop d p ((tok, l) # rest) = group_loop d l rest
     \<and> group_mentions (xs @ [(tok, l)]) = group_mentions xs"
proof -
  from assms have a: "aspects_for_token l = []" by (simp add: aspects_for_token_def)
  then show ?thesis
    by (simp add: group_mentions_snoc split: sum.splits)
qed

theorem sentinel_discards_all_categories_witness:
  "str ''O'' \<in> set (split_on 124 (str ''Method|O''))
   \<and> str ''Method'' \<in> set (split_on 124 (str ''Method|O''))
   \<and> aspects_for_token (str ''Method|O'') = []
   \<and> group_mentions ([(str ''a'', str ''Method'')] @ [(str ''b'', str ''Method|O'')])
       = group_mentions [(str ''a'', str ''Method'')]
   \<and> group_mentions [(str ''a'', str ''Method'')] = Inr [(str ''Method'', [[str ''a'']])]"
proof -
  have h: "str ''O'' \<in> set (split_on 124 (str ''Method|O''))" by code_simp
  have h2: "str ''Method'' \<in> set (split_on 124 (str ''Method|O''))" by code_simp
  have g: "group_mentions [(str ''a'', str ''Method'')] = Inr [(str ''Method'', [[str ''a'']])]"
    by code_simp
  from sentinel_discards_all_categories[OF h, of "[]" "[]" "str ''b''" "[]" "[(str ''a'', str ''Method'')]"]
    h h2 g show ?thesis by blast
qed

end
